theory Spec2Isabelle
  imports Complex_Main "HOL-Library.Word" "HOL-Library.List_Lexorder" "HOL-Library.Multiset"
begin

unbundle bit_operations_syntax

section \<open>Values and the build\<close>

text \<open>
  The model follows \<^verbatim>\<open>be/src/exprs/aggregate-functions.cc\<close>. Memory that the C++ reaches
  through a pointer is a list of bytes (the allocation the pointer refers to); an access
  outside that list is the error \<open>OutOfBounds\<close>. A failed \<^verbatim>\<open>DCHECK\<close> is the error
  \<open>DCheckFailed\<close>.
\<close>

type_synonym byte = "8 word"
type_synonym uint32 = "32 word"
type_synonym int64 = "64 word"

datatype error = DCheckFailed | OutOfBounds

text \<open>
  What the source leaves to the build and to the target machine:
  \<^item> \<open>dchecks\<close>: whether \<^verbatim>\<open>DCHECK\<close> is compiled in (debug build) or expands to nothing;
  \<^item> \<open>ctz_zero\<close>: the value \<^verbatim>\<open>__builtin_ctz(0)\<close> yields (documented as undefined);
  \<^item> \<open>shl_wide\<close>: the value of \<^verbatim>\<open>1 << n\<close> for \<open>n \<ge> 32\<close> (undefined in C++);
  \<^item> \<open>pow\<close>, \<open>fdiv\<close>, \<open>fmul\<close>: \<^verbatim>\<open>pow\<close> of \<^verbatim>\<open>math.h\<close> and the division and
    multiplication of \<^verbatim>\<open>double\<close>, each with whatever rounding the machine applies. A
    \<^verbatim>\<open>double\<close> is modelled by the real number it denotes.
  Every theorem below holds for all values of these fields unless it says otherwise.
\<close>

record platform =
  dchecks :: bool
  ctz_zero :: nat
  shl_wide :: "nat \<Rightarrow> uint32"
  pow :: "real \<Rightarrow> real \<Rightarrow> real"
  fdiv :: "real \<Rightarrow> real \<Rightarrow> real"
  fmul :: "real \<Rightarrow> real \<Rightarrow> real"

text \<open>
  \<^verbatim>\<open>AnyVal\<close> and the structs derived from it. \<open>ptr\<close> of a \<open>StringVal\<close> holds the bytes
  of the allocation that the C++ pointer refers to; \<open>len\<close> is the separate length field.
\<close>

record AnyVal =
  is_null :: bool

record 'a ScalarVal = AnyVal +
  val :: 'a

record StringVal = AnyVal +
  len :: int
  ptr :: "byte list"

definition DCHECK :: "platform \<Rightarrow> bool \<Rightarrow> error + 'a \<Rightarrow> error + 'a" where
  "DCHECK p c k = (if dchecks p \<and> \<not> c then Inl DCheckFailed else k)"

definition read_byte :: "byte list \<Rightarrow> nat \<Rightarrow> error + byte" where
  "read_byte mem i = (if i < length mem then Inr (mem ! i) else Inl OutOfBounds)"

definition write_byte :: "byte list \<Rightarrow> nat \<Rightarrow> byte \<Rightarrow> error + byte list" where
  "write_byte mem i b = (if i < length mem then Inr (mem[i := b]) else Inl OutOfBounds)"

text \<open>\<^verbatim>\<open>memcpy(dst + off, bytes, length bytes)\<close>.\<close>

definition memcpy :: "byte list \<Rightarrow> nat \<Rightarrow> byte list \<Rightarrow> error + byte list" where
  "memcpy dst off bytes =
     (if off + length bytes \<le> length dst
      then Inr (take off dst @ bytes @ drop (off + length bytes) dst)
      else Inl OutOfBounds)"

section \<open>The distinct-count sketch\<close>

definition NUM_PC_BITMAPS :: nat where
  "NUM_PC_BITMAPS = 64"

definition PC_BITMAP_LENGTH :: nat where
  "PC_BITMAP_LENGTH = 32"

text \<open>
  \<^verbatim>\<open>PC_THETA = 0.77351f\<close>: the single-precision number nearest to 0.77351, which is
  \<open>12977344 / 2^24\<close>.
\<close>

definition PC_THETA :: real where
  "PC_THETA = 202771 / 262144"

text \<open>\<^verbatim>\<open>PcInit\<close>: a zero-filled bitmap of 64 * 32 / 8 bytes (the allocation is taken to succeed).\<close>

definition PcInit :: StringVal where
  "PcInit =
     (let str_len = NUM_PC_BITMAPS * PC_BITMAP_LENGTH div 8
      in \<lparr>is_null = False, len = int str_len, ptr = replicate str_len 0\<rparr>)"

text \<open>
  \<^verbatim>\<open>reinterpret_cast<uint32_t*>(bitmap)\<close>: the bitmap read as 32-bit words, on the
  little-endian machines the engine runs on.
\<close>

definition word_of_bytes :: "byte \<Rightarrow> byte \<Rightarrow> byte \<Rightarrow> byte \<Rightarrow> uint32" where
  "word_of_bytes b0 b1 b2 b3 =
     ucast b0 OR push_bit 8 (ucast b1) OR push_bit 16 (ucast b2) OR push_bit 24 (ucast b3)"

definition byte_of_word :: "uint32 \<Rightarrow> nat \<Rightarrow> byte" where
  "byte_of_word w k = ucast (drop_bit (8 * k) w)"

definition int_bitmap_read :: "byte list \<Rightarrow> nat \<Rightarrow> error + uint32" where
  "int_bitmap_read bitmap k =
     (if 4 * k + 4 \<le> length bitmap
      then Inr (word_of_bytes (bitmap ! (4 * k)) (bitmap ! (4 * k + 1))
                              (bitmap ! (4 * k + 2)) (bitmap ! (4 * k + 3)))
      else Inl OutOfBounds)"

definition int_bitmap_write :: "byte list \<Rightarrow> nat \<Rightarrow> uint32 \<Rightarrow> error + byte list" where
  "int_bitmap_write bitmap k w =
     (if 4 * k + 4 \<le> length bitmap
      then Inr (bitmap[4 * k := byte_of_word w 0, 4 * k + 1 := byte_of_word w 1,
                       4 * k + 2 := byte_of_word w 2, 4 * k + 3 := byte_of_word w 3])
      else Inl OutOfBounds)"

text \<open>
  \<^verbatim>\<open>1 << bit_index\<close>, converted to \<^verbatim>\<open>uint32_t\<close> by the bitwise operation it feeds: bit
  \<open>n\<close> alone for \<open>n < 32\<close> (for 31 the sign bit of the \<^verbatim>\<open>int\<close>).
\<close>

definition shift_left_1 :: "platform \<Rightarrow> nat \<Rightarrow> uint32" where
  "shift_left_1 p n = (if n < 32 then push_bit n 1 else shl_wide p n)"

definition SetDistinctEstimateBit ::
    "platform \<Rightarrow> byte list \<Rightarrow> nat \<Rightarrow> nat \<Rightarrow> error + byte list" where
  "SetDistinctEstimateBit p bitmap row_index bit_index =
     (case int_bitmap_read bitmap row_index of
        Inl e \<Rightarrow> Inl e
      | Inr w \<Rightarrow> int_bitmap_write bitmap row_index (w OR shift_left_1 p bit_index))"

definition GetDistinctEstimateBit ::
    "platform \<Rightarrow> byte list \<Rightarrow> nat \<Rightarrow> nat \<Rightarrow> error + bool" where
  "GetDistinctEstimateBit p bitmap row_index bit_index =
     (case int_bitmap_read bitmap row_index of
        Inl e \<Rightarrow> Inl e
      | Inr w \<Rightarrow> Inr ((w AND shift_left_1 p bit_index) > 0))"

text \<open>
  \<^verbatim>\<open>__builtin_ctz\<close>: the number of trailing zero bits of a non-zero argument; on zero the
  builtin's result is undefined, here the platform's \<open>ctz_zero\<close>.
\<close>

definition count_trailing_zeros :: "uint32 \<Rightarrow> nat" where
  "count_trailing_zeros x = length (takeWhile (\<lambda>j. \<not> bit x j) [0..<32])"

definition builtin_ctz :: "platform \<Rightarrow> uint32 \<Rightarrow> nat" where
  "builtin_ctz p x = (if x = 0 then ctz_zero p else count_trailing_zeros x)"

text \<open>
  \<^verbatim>\<open>PcUpdate\<close>. \<open>Hash\<close> is \<^verbatim>\<open>AnyValUtil::Hash\<close>, which is not part of this file: any
  function from the input and the seed to 32 bits.
\<close>

function PcUpdate_loop ::
    "platform \<Rightarrow> ('a AnyVal_scheme \<Rightarrow> int \<Rightarrow> uint32) \<Rightarrow> 'a AnyVal_scheme \<Rightarrow> byte list \<Rightarrow> nat
     \<Rightarrow> error + byte list" where
  "PcUpdate_loop p Hash input bitmap i =
     (if i < NUM_PC_BITMAPS then
        (let hash_value = Hash input (int i);
             bit_index = builtin_ctz p hash_value;
             bit_index = (if hash_value = 0 then PC_BITMAP_LENGTH - 1 else bit_index)
         in (case SetDistinctEstimateBit p bitmap i bit_index of
               Inl e \<Rightarrow> Inl e
             | Inr bitmap' \<Rightarrow> PcUpdate_loop p Hash input bitmap' (i + 1)))
      else Inr bitmap)"
  by pat_completeness auto
termination
  by (relation "measure (\<lambda>(p, Hash, input, bitmap, i). NUM_PC_BITMAPS - i)") auto

definition PcUpdate ::
    "platform \<Rightarrow> ('a AnyVal_scheme \<Rightarrow> int \<Rightarrow> uint32) \<Rightarrow> 'a AnyVal_scheme \<Rightarrow> StringVal
     \<Rightarrow> error + StringVal" where
  "PcUpdate p Hash input dst =
     (if is_null input then Inr dst
      else (case PcUpdate_loop p Hash input (ptr dst) 0 of
              Inl e \<Rightarrow> Inl e
            | Inr m \<Rightarrow> Inr (dst\<lparr>ptr := m\<rparr>)))"

definition PcsaUpdate ::
    "platform \<Rightarrow> ('a AnyVal_scheme \<Rightarrow> int \<Rightarrow> uint32) \<Rightarrow> 'a AnyVal_scheme \<Rightarrow> StringVal
     \<Rightarrow> error + StringVal" where
  "PcsaUpdate p Hash input dst =
     (if is_null input then Inr dst
      else
        (let hash_value = Hash input 0;
             row_index = hash_value mod word_of_nat NUM_PC_BITMAPS;
             bit_index = builtin_ctz p (hash_value div word_of_nat NUM_PC_BITMAPS);
             bit_index = (if hash_value = 0 then PC_BITMAP_LENGTH - 1 else bit_index)
         in (case SetDistinctEstimateBit p (ptr dst) (unat row_index) bit_index of
               Inl e \<Rightarrow> Inl e
             | Inr m \<Rightarrow> Inr (dst\<lparr>ptr := m\<rparr>))))"

text \<open>
  \<^verbatim>\<open>PcMerge\<close>. The source is read through its own pointer; when source and destination
  are the same buffer each byte is read before it is written with \<open>d OR d = d\<close>, so the
  aliased call gives the same contents as the one modelled. The row logging
  (\<^verbatim>\<open>VLOG_ROW\<close>) only reads and is left out.
\<close>

function PcMerge_loop :: "byte list \<Rightarrow> byte list \<Rightarrow> nat \<Rightarrow> error + byte list" where
  "PcMerge_loop src dst i =
     (if i < NUM_PC_BITMAPS * PC_BITMAP_LENGTH div 8 then
        (case read_byte src i of
           Inl e \<Rightarrow> Inl e
         | Inr s \<Rightarrow>
            (case read_byte dst i of
               Inl e \<Rightarrow> Inl e
             | Inr d \<Rightarrow>
                (case write_byte dst i (d OR s) of
                   Inl e \<Rightarrow> Inl e
                 | Inr dst' \<Rightarrow> PcMerge_loop src dst' (i + 1))))
      else Inr dst)"
  by pat_completeness auto
termination
  by (relation "measure (\<lambda>(src, dst, i). NUM_PC_BITMAPS * PC_BITMAP_LENGTH div 8 - i)") auto

definition PcMerge :: "platform \<Rightarrow> StringVal \<Rightarrow> StringVal \<Rightarrow> error + StringVal" where
  "PcMerge p src dst =
     DCHECK p (\<not> is_null src)
    (DCHECK p (\<not> is_null dst)
    (DCHECK p (len src = int (NUM_PC_BITMAPS * PC_BITMAP_LENGTH div 8))
      (case PcMerge_loop (ptr src) (ptr dst) 0 of
         Inl e \<Rightarrow> Inl e
       | Inr m \<Rightarrow> Inr (dst\<lparr>ptr := m\<rparr>))))"

text \<open>
  \<^verbatim>\<open>DistinceEstimateFinalize\<close>: the emptiness scan with its \<^verbatim>\<open>break\<close>, then the count
  of leading ones of every row. \<open>count_row_loop\<close> is the \<^verbatim>\<open>while\<close> loop; it evaluates
  \<^verbatim>\<open>GetDistinctEstimateBit(src.ptr, i, row_bit_count)\<close> before the bound
  \<^verbatim>\<open>row_bit_count < PC_BITMAP_LENGTH\<close>, as the source's \<^verbatim>\<open>&&\<close> does. Its second result
  lists, in order, the \<open>bit_index\<close> arguments of those calls.
\<close>

function is_empty_loop :: "byte list \<Rightarrow> nat \<Rightarrow> error + bool" where
  "is_empty_loop mem i =
     (if i < NUM_PC_BITMAPS * PC_BITMAP_LENGTH div 8 then
        (case read_byte mem i of
           Inl e \<Rightarrow> Inl e
         | Inr b \<Rightarrow> if b \<noteq> 0 then Inr False else is_empty_loop mem (i + 1))
      else Inr True)"
  by pat_completeness auto
termination
  by (relation "measure (\<lambda>(mem, i). NUM_PC_BITMAPS * PC_BITMAP_LENGTH div 8 - i)") auto

function count_row_loop ::
    "platform \<Rightarrow> byte list \<Rightarrow> nat \<Rightarrow> nat \<Rightarrow> nat list \<Rightarrow> error + nat \<times> nat list" where
  "count_row_loop p bitmap i row_bit_count reads =
     (case GetDistinctEstimateBit p bitmap i row_bit_count of
        Inl e \<Rightarrow> Inl e
      | Inr b \<Rightarrow>
          if b \<and> row_bit_count < PC_BITMAP_LENGTH
          then count_row_loop p bitmap i (row_bit_count + 1) (reads @ [row_bit_count])
          else Inr (row_bit_count, reads @ [row_bit_count]))"
  by pat_completeness auto
termination
  by (relation "measure (\<lambda>(p, bitmap, i, row_bit_count, reads). PC_BITMAP_LENGTH - row_bit_count)")
     auto

function sum_loop :: "platform \<Rightarrow> byte list \<Rightarrow> nat \<Rightarrow> int \<Rightarrow> error + int" where
  "sum_loop p bitmap i sum_acc =
     (if i < NUM_PC_BITMAPS then
        (case count_row_loop p bitmap i 0 [] of
           Inl e \<Rightarrow> Inl e
         | Inr (row_bit_count, reads) \<Rightarrow> sum_loop p bitmap (i + 1) (sum_acc + int row_bit_count))
      else Inr sum_acc)"
  by pat_completeness auto
termination
  by (relation "measure (\<lambda>(p, bitmap, i, sum_acc). NUM_PC_BITMAPS - i)") auto

definition DistinceEstimateFinalize :: "platform \<Rightarrow> StringVal \<Rightarrow> error + real" where
  "DistinceEstimateFinalize p src =
     DCHECK p (\<not> is_null src)
    (DCHECK p (len src = int (NUM_PC_BITMAPS * PC_BITMAP_LENGTH div 8))
      (case is_empty_loop (ptr src) 0 of
         Inl e \<Rightarrow> Inl e
       | Inr is_empty \<Rightarrow>
           if is_empty then Inr 0
           else (case sum_loop p (ptr src) 0 0 of
                   Inl e \<Rightarrow> Inl e
                 | Inr sum_acc \<Rightarrow>
                     (let avg = fdiv p (real_of_int sum_acc) (real NUM_PC_BITMAPS);
                          result = fdiv p (pow p 2 avg) PC_THETA
                      in Inr result))))"

text \<open>
  \<^verbatim>\<open>int64_t result = estimate\<close> truncates towards zero (C++ leaves the conversion of a
  value outside the 64-bit range undefined; the model wraps it). \<^verbatim>\<open>ss << result\<close> prints
  the decimal digits, with a leading minus sign for a negative number.
\<close>

definition double_to_int64 :: "real \<Rightarrow> int64" where
  "double_to_int64 x = word_of_int (if x < 0 then \<lceil>x\<rceil> else \<lfloor>x\<rfloor>)"

fun decimal :: "nat \<Rightarrow> byte list" where
  "decimal n = (if n < 10 then [48 + of_nat n] else decimal (n div 10) @ [48 + of_nat (n mod 10)])"

definition int64_to_string :: "int64 \<Rightarrow> byte list" where
  "int64_to_string w = (if sint w < 0 then 45 # decimal (nat (- sint w)) else decimal (nat (sint w)))"

text \<open>
  \<^verbatim>\<open>PcFinalize\<close> and \<^verbatim>\<open>PcsaFinalize\<close>. \<^verbatim>\<open>StringVal dst = src\<close> copies the pointer, not
  the bytes: the \<^verbatim>\<open>memcpy\<close> writes into the buffer of \<open>src\<close>, so \<open>ptr\<close> of the result is
  the content of that one buffer after the call.
\<close>

definition PcFinalize :: "platform \<Rightarrow> StringVal \<Rightarrow> error + StringVal" where
  "PcFinalize p src =
     (case DistinceEstimateFinalize p src of
        Inl e \<Rightarrow> Inl e
      | Inr estimate \<Rightarrow>
          (let result = double_to_int64 estimate;
               str = int64_to_string result
           in (case memcpy (ptr src) 0 str of
                 Inl e \<Rightarrow> Inl e
               | Inr m \<Rightarrow> Inr (src\<lparr>ptr := m, len := int (length str)\<rparr>))))"

definition PcsaFinalize :: "platform \<Rightarrow> StringVal \<Rightarrow> error + StringVal" where
  "PcsaFinalize p src =
     (case DistinceEstimateFinalize p src of
        Inl e \<Rightarrow> Inl e
      | Inr base \<Rightarrow>
          (let estimate = fmul p base (real NUM_PC_BITMAPS);
               result = double_to_int64 estimate;
               str = int64_to_string result
           in (case memcpy (ptr src) 0 str of
                 Inl e \<Rightarrow> Inl e
               | Inr m \<Rightarrow> Inr (src\<lparr>ptr := m, len := int (length str)\<rparr>))))"


text \<open>
  Views of a bitmap used to state what the operations do: \<open>row\<close> is the 32-bit word that
  \<open>int_bitmap_read\<close> loads, \<open>bitmap_bit bitmap i j\<close> is bit \<open>j\<close> of row \<open>i\<close> read straight
  from the bytes, \<open>leading_run\<close> is the number of set bits of row \<open>i\<close> from column 0 up to
  the first unset bit or the row width, and \<open>column\<close> is the column that an update
  derives from a hash value.
\<close>

definition row :: "byte list \<Rightarrow> nat \<Rightarrow> uint32" where
  "row bitmap i = word_of_bytes (bitmap ! (4 * i)) (bitmap ! (4 * i + 1))
                                (bitmap ! (4 * i + 2)) (bitmap ! (4 * i + 3))"

definition bitmap_bit :: "byte list \<Rightarrow> nat \<Rightarrow> nat \<Rightarrow> bool" where
  "bitmap_bit bitmap i j = bit (bitmap ! (4 * i + j div 8)) (j mod 8)"

definition leading_run :: "byte list \<Rightarrow> nat \<Rightarrow> nat" where
  "leading_run bitmap i = length (takeWhile (bitmap_bit bitmap i) [0..<32])"

definition column :: "uint32 \<Rightarrow> nat" where
  "column h = (if h = 0 then 31 else count_trailing_zeros h)"

text \<open>
  A debug build on a machine whose shifts take the count modulo 32 and whose
  trailing-zero count of 0 is 32, with exact arithmetic on \<^verbatim>\<open>double\<close>; and the same
  machine with a trailing-zero count of 0 that is 7.
\<close>

definition example_platform :: platform where
  "example_platform =
     \<lparr>dchecks = True, ctz_zero = 32, shl_wide = (\<lambda>n. push_bit (n mod 32) 1),
      pow = (powr), fdiv = (/), fmul = (*)\<rparr>"

definition other_platform :: platform where
  "other_platform = example_platform\<lparr>ctz_zero := 7\<rparr>"

section \<open>Scalar accumulators\<close>


definition InitZero :: "('a::zero) ScalarVal \<Rightarrow> 'a ScalarVal" where
  "InitZero dst = dst\<lparr>is_null := False, val := 0\<rparr>"

text \<open>
  \<^verbatim>\<open>Sum<SRC_VAL, DST_VAL>\<close>. \<open>conv\<close> is the implicit conversion of \<^verbatim>\<open>src.val\<close> to the
  type of \<^verbatim>\<open>dst->val\<close> in \<^verbatim>\<open>dst->val += src.val\<close>. For the instantiations with a
  \<^verbatim>\<open>BigIntVal\<close> destination the state is a 64-bit word, whose addition wraps, and the
  conversion is the sign extension \<open>scast\<close> (\<^verbatim>\<open>TinyIntVal\<close>, \<^verbatim>\<open>SmallIntVal\<close>,
  \<^verbatim>\<open>IntVal\<close>, \<^verbatim>\<open>BigIntVal\<close>) or 0/1 (\<^verbatim>\<open>BooleanVal\<close>).
\<close>

definition Sum :: "('s \<Rightarrow> 'd) \<Rightarrow> 's ScalarVal \<Rightarrow> ('d::{zero,plus}) ScalarVal \<Rightarrow> 'd ScalarVal" where
  "Sum conv src dst =
     (if is_null src then dst
      else (let dst = (if is_null dst then InitZero dst else dst)
            in dst\<lparr>val := val dst + conv (val src)\<rparr>))"


definition Sum_Boolean :: "bool ScalarVal \<Rightarrow> int64 ScalarVal \<Rightarrow> int64 ScalarVal" where
  "Sum_Boolean = Sum (\<lambda>b. if b then 1 else 0)"

text \<open>\<^verbatim>\<open>Min<T>\<close> and \<^verbatim>\<open>Max<T>\<close> for the scalar types; \<^verbatim>\<open>*dst = src\<close> copies the struct.\<close>

definition Min_Scalar :: "('a::linorder) ScalarVal \<Rightarrow> 'a ScalarVal \<Rightarrow> 'a ScalarVal" where
  "Min_Scalar src dst =
     (if is_null src then dst
      else if is_null dst \<or> val src < val dst then src else dst)"

definition Max_Scalar :: "('a::linorder) ScalarVal \<Rightarrow> 'a ScalarVal \<Rightarrow> 'a ScalarVal" where
  "Max_Scalar src dst =
     (if is_null src then dst
      else if is_null dst \<or> val src > val dst then src else dst)"

section \<open>The scratch buffer and the accumulators built on it\<close>

text \<open>
  \<^verbatim>\<open>FunctionContext::Allocate\<close> is taken to succeed; the bytes of fresh memory are
  unspecified, here one unspecified byte value repeated. \<^verbatim>\<open>Free\<close> has no effect on the
  values computed. Lengths are C \<^verbatim>\<open>int\<close>s, modelled as integers without overflow.
\<close>

record FunctionContext =
  junk :: byte

definition Allocate :: "FunctionContext \<Rightarrow> int \<Rightarrow> byte list" where
  "Allocate ctx n = replicate (nat n) (junk ctx)"

text \<open>\<open>buffer = None\<close> is the \<^verbatim>\<open>NULL\<close> pointer.\<close>

record StringValScratch =
  buffer_len :: int
  str_len :: int
  buffer :: "byte list option"

definition new_StringValScratch :: StringValScratch where
  "new_StringValScratch = \<lparr>buffer_len = 0, str_len = 0, buffer = None\<rparr>"

text \<open>
  Reading \<open>n\<close> bytes through a pointer, and \<^verbatim>\<open>memcpy\<close> into a scratch buffer. Through
  \<^verbatim>\<open>NULL\<close> only zero bytes can be read or written.
\<close>

definition read_bytes :: "byte list \<Rightarrow> int \<Rightarrow> error + byte list" where
  "read_bytes mem n =
     (if 0 \<le> n \<and> nat n \<le> length mem then Inr (take (nat n) mem) else Inl OutOfBounds)"

definition pointee :: "byte list option \<Rightarrow> byte list" where
  "pointee b = (case b of None \<Rightarrow> [] | Some m \<Rightarrow> m)"

definition memcpy_to :: "byte list option \<Rightarrow> int \<Rightarrow> byte list \<Rightarrow> error + byte list option" where
  "memcpy_to b off bytes =
     (case b of
        None \<Rightarrow> if bytes = [] then Inr None else Inl OutOfBounds
      | Some m \<Rightarrow>
          if off < 0 then Inl OutOfBounds
          else (case memcpy m (nat off) bytes of
                  Inl e \<Rightarrow> Inl e
                | Inr m' \<Rightarrow> Inr (Some m')))"

definition ResizeBufferTo ::
    "platform \<Rightarrow> FunctionContext \<Rightarrow> StringValScratch \<Rightarrow> int \<Rightarrow> bool \<Rightarrow> error + StringValScratch" where
  "ResizeBufferTo p ctx s new_len copy =
     (if new_len \<le> buffer_len s then Inr s
      else DCHECK p (new_len > 0)
        (let new_len = new_len + new_len div 2;
             new_buffer = Allocate ctx new_len
         in (case (if copy
                   then (case read_bytes (pointee (buffer s)) (str_len s) of
                           Inl e \<Rightarrow> Inl e
                         | Inr old \<Rightarrow> memcpy new_buffer 0 old)
                   else Inr new_buffer) of
               Inl e \<Rightarrow> Inl e
             | Inr new_buffer \<Rightarrow> Inr (s\<lparr>buffer := Some new_buffer, buffer_len := new_len\<rparr>))))"

definition Set_Scratch ::
    "platform \<Rightarrow> FunctionContext \<Rightarrow> StringValScratch \<Rightarrow> StringVal \<Rightarrow> error + StringValScratch" where
  "Set_Scratch p ctx s sv =
     (case ResizeBufferTo p ctx s (len sv) False of
        Inl e \<Rightarrow> Inl e
      | Inr s \<Rightarrow>
         (case read_bytes (ptr sv) (len sv) of
            Inl e \<Rightarrow> Inl e
          | Inr bytes \<Rightarrow>
             (case memcpy_to (buffer s) 0 bytes of
                Inl e \<Rightarrow> Inl e
              | Inr b \<Rightarrow> Inr (s\<lparr>buffer := b, str_len := len sv\<rparr>))))"

definition Append ::
    "platform \<Rightarrow> FunctionContext \<Rightarrow> StringValScratch \<Rightarrow> StringVal \<Rightarrow> error + StringValScratch" where
  "Append p ctx s sv =
     (if len sv = 0 then Inr s
      else
        (let new_len = str_len s + len sv
         in (case (if new_len > buffer_len s then ResizeBufferTo p ctx s new_len True
                   else Inr s) of
               Inl e \<Rightarrow> Inl e
             | Inr s \<Rightarrow>
                (case read_bytes (ptr sv) (len sv) of
                   Inl e \<Rightarrow> Inl e
                 | Inr bytes \<Rightarrow>
                    (case memcpy_to (buffer s) (str_len s) bytes of
                       Inl e \<Rightarrow> Inl e
                     | Inr b \<Rightarrow> Inr (s\<lparr>buffer := b, str_len := str_len s + len sv\<rparr>))))))"

text \<open>
  A \<^verbatim>\<open>StringVal\<close> whose \<^verbatim>\<open>ptr\<close> is a \<^verbatim>\<open>StringValScratch*\<close>: \<open>scratch_len\<close> is its
  \<^verbatim>\<open>len\<close> field and \<open>scratch\<close> the object pointed to. \<^verbatim>\<open>sizeof(StringValScratch)\<close> is
  16 on the 64-bit target (two \<^verbatim>\<open>int\<close>s and a pointer).
\<close>

record ScratchVal = AnyVal +
  scratch_len :: int
  scratch :: StringValScratch

definition sizeof_StringValScratch :: int where
  "sizeof_StringValScratch = 16"

definition InitScratch :: ScratchVal where
  "InitScratch =
     \<lparr>is_null = False, scratch_len = sizeof_StringValScratch, scratch = new_StringValScratch\<rparr>"

definition StringVal_null :: StringVal where
  "StringVal_null = \<lparr>is_null = True, len = 0, ptr = []\<rparr>"

definition SerializeScratch :: "platform \<Rightarrow> ScratchVal \<Rightarrow> error + StringVal" where
  "SerializeScratch p sv =
     DCHECK p (\<not> is_null sv)
    (DCHECK p (scratch_len sv = sizeof_StringValScratch)
      (let s = scratch sv;
           result = StringVal_null;
           result = (case buffer s of
                       None \<Rightarrow> result
                     | Some m \<Rightarrow> \<lparr>is_null = False, len = str_len s, ptr = m\<rparr>)
       in Inr result))"

text \<open>
  Modelled from the spec: \<^verbatim>\<open>StringValue::operator<\<close> and \<^verbatim>\<open>operator>\<close> are declared in
  \<^verbatim>\<open>runtime/string-value.h\<close>, which is not part of this file; the spec gives the order
  of text as lexicographic over bytes. \<open>StringValue\<close> is the byte string that a pointer
  and a length denote.
\<close>

definition StringValue :: "byte list \<Rightarrow> int \<Rightarrow> byte list" where
  "StringValue mem n = take (nat n) mem"

definition StringValue_less :: "byte list \<Rightarrow> byte list \<Rightarrow> bool" where
  "StringValue_less a b = (a < b)"

definition Min_String ::
    "platform \<Rightarrow> FunctionContext \<Rightarrow> StringVal \<Rightarrow> ScratchVal \<Rightarrow> error + ScratchVal" where
  "Min_String p ctx src dst =
     (if is_null src then Inr dst
      else DCHECK p (\<not> is_null dst)
          (DCHECK p (scratch_len dst = sizeof_StringValScratch)
            (let s = scratch dst;
                 src_sv = StringValue (ptr src) (len src);
                 dst_sv = StringValue (pointee (buffer s)) (str_len s)
             in if buffer s = None \<or> StringValue_less src_sv dst_sv
                then (case Set_Scratch p ctx s src of
                        Inl e \<Rightarrow> Inl e
                      | Inr s' \<Rightarrow> Inr (dst\<lparr>scratch := s'\<rparr>))
                else Inr dst)))"

definition Max_String ::
    "platform \<Rightarrow> FunctionContext \<Rightarrow> StringVal \<Rightarrow> ScratchVal \<Rightarrow> error + ScratchVal" where
  "Max_String p ctx src dst =
     (if is_null src then Inr dst
      else DCHECK p (\<not> is_null dst)
          (DCHECK p (scratch_len dst = sizeof_StringValScratch)
            (let s = scratch dst;
                 src_sv = StringValue (ptr src) (len src);
                 dst_sv = StringValue (pointee (buffer s)) (str_len s)
             in if buffer s = None \<or> StringValue_less dst_sv src_sv
                then (case Set_Scratch p ctx s src of
                        Inl e \<Rightarrow> Inl e
                      | Inr s' \<Rightarrow> Inr (dst\<lparr>scratch := s'\<rparr>))
                else Inr dst)))"

definition DEFAULT_STRING_CONCAT_DELIM :: StringVal where
  "DEFAULT_STRING_CONCAT_DELIM = \<lparr>is_null = False, len = 2, ptr = [44, 32]\<rparr>"

definition StringConcat ::
    "platform \<Rightarrow> FunctionContext \<Rightarrow> StringVal \<Rightarrow> StringVal \<Rightarrow> ScratchVal \<Rightarrow> error + ScratchVal" where
  "StringConcat p ctx src separator result =
     (if is_null src then Inr result
      else DCHECK p (\<not> is_null result)
          (DCHECK p (scratch_len result = sizeof_StringValScratch)
            (let s = scratch result
             in if buffer s = None
                then (case Set_Scratch p ctx s src of
                        Inl e \<Rightarrow> Inl e
                      | Inr s' \<Rightarrow> Inr (result\<lparr>scratch := s'\<rparr>))
                else (case (if is_null separator
                            then Append p ctx s DEFAULT_STRING_CONCAT_DELIM
                            else Append p ctx s separator) of
                        Inl e \<Rightarrow> Inl e
                      | Inr s' \<Rightarrow>
                         (case Append p ctx s' src of
                            Inl e \<Rightarrow> Inl e
                          | Inr s'' \<Rightarrow> Inr (result\<lparr>scratch := s''\<rparr>))))))"

text \<open>
  The engine calls an update once per row, in order, and stops at the first failure
  (\<open>update_all\<close>); then it serializes. \<open>string_val\<close> makes the \<^verbatim>\<open>StringVal\<close> of a byte
  string and \<open>string_of\<close> reads back the bytes a non-null \<^verbatim>\<open>StringVal\<close> denotes.
\<close>

fun update_all :: "('s \<Rightarrow> 'd \<Rightarrow> error + 'd) \<Rightarrow> 's list \<Rightarrow> 'd \<Rightarrow> error + 'd" where
  "update_all f [] d = Inr d"
| "update_all f (x # xs) d =
     (case f x d of Inl e \<Rightarrow> Inl e | Inr d' \<Rightarrow> update_all f xs d')"

definition serialize_after :: "platform \<Rightarrow> error + ScratchVal \<Rightarrow> error + StringVal" where
  "serialize_after p r = (case r of Inl e \<Rightarrow> Inl e | Inr d \<Rightarrow> SerializeScratch p d)"

definition string_val :: "byte list \<Rightarrow> StringVal" where
  "string_val bs = \<lparr>is_null = False, len = int (length bs), ptr = bs\<rparr>"

definition string_of :: "StringVal \<Rightarrow> byte list option" where
  "string_of sv = (if is_null sv then None else Some (take (nat (len sv)) (ptr sv)))"

text \<open>Example inputs: a hash function, a non-null 32-bit value and two bitmaps.\<close>

definition example_hash :: "uint32 ScalarVal \<Rightarrow> int \<Rightarrow> uint32" where
  "example_hash input seed = val input + word_of_int seed"

definition example_input :: "uint32 ScalarVal" where
  "example_input = \<lparr>is_null = False, val = 200\<rparr>"

definition bitmap_of_byte :: "byte \<Rightarrow> StringVal" where
  "bitmap_of_byte b = \<lparr>is_null = False, len = 256, ptr = replicate 256 b\<rparr>"

definition hash_one :: "uint32 ScalarVal \<Rightarrow> int \<Rightarrow> uint32" where
  "hash_one input seed = 1"

definition long_bitmap :: StringVal where
  "long_bitmap = \<lparr>is_null = False, len = 260, ptr = replicate 260 0\<rparr>"

definition short_bitmap :: StringVal where
  "short_bitmap = \<lparr>is_null = False, len = 4, ptr = replicate 4 0\<rparr>"

text \<open>One row of the concatenation: the value and its separator; and example values.\<close>

definition StringConcat_row ::
    "platform \<Rightarrow> FunctionContext \<Rightarrow> StringVal \<times> StringVal \<Rightarrow> ScratchVal \<Rightarrow> error + ScratchVal" where
  "StringConcat_row p ctx r result = StringConcat p ctx (fst r) (snd r) result"




text \<open>
  Views used to state what the text accumulators do. \<open>holds s c\<close>: the scratch \<open>s\<close> has a
  buffer whose first \<open>str_len\<close> bytes are \<open>c\<close> and whose size is \<open>buffer_len\<close>.
  \<open>wf_scratch_val\<close>: the two facts that the accumulators \<^verbatim>\<open>DCHECK\<close>. The rows of a
  concatenation are pairs of an optional value and an optional separator (\<open>None\<close> is
  null); \<open>concat_spec\<close> is the text \<open>v1 + S + v2 + ...\<close> over the non-null values, with the
  separator given in the call of the value it precedes and \<open>", "\<close> for a null separator.
\<close>

definition holds :: "StringValScratch \<Rightarrow> byte list \<Rightarrow> bool" where
  "holds s c \<longleftrightarrow>
     (\<exists>m. buffer s = Some m \<and> buffer_len s = int (length m) \<and> str_len s = int (length c)
          \<and> length c \<le> length m \<and> take (length c) m = c)"

definition wf_scratch_val :: "ScratchVal \<Rightarrow> bool" where
  "wf_scratch_val d \<longleftrightarrow> \<not> is_null d \<and> scratch_len d = sizeof_StringValScratch"

definition opt_val :: "byte list option \<Rightarrow> StringVal" where
  "opt_val x = (case x of None \<Rightarrow> StringVal_null | Some b \<Rightarrow> string_val b)"

definition separator_bytes :: "byte list option \<Rightarrow> byte list" where
  "separator_bytes s = (case s of None \<Rightarrow> [44, 32] | Some b \<Rightarrow> b)"

definition concat_row :: "byte list option \<times> byte list option \<Rightarrow> StringVal \<times> StringVal" where
  "concat_row r = (opt_val (fst r), opt_val (snd r))"

fun concat_from :: "byte list \<Rightarrow> (byte list option \<times> byte list option) list \<Rightarrow> byte list" where
  "concat_from a [] = a"
| "concat_from a ((None, s) # rs) = concat_from a rs"
| "concat_from a ((Some v, s) # rs) = concat_from (a @ separator_bytes s @ v) rs"

fun concat_spec :: "(byte list option \<times> byte list option) list \<Rightarrow> byte list option" where
  "concat_spec [] = None"
| "concat_spec ((None, s) # rs) = concat_spec rs"
| "concat_spec ((Some v, s) # rs) = Some (concat_from v rs)"

fun first_value :: "(byte list option \<times> byte list option) list \<Rightarrow> byte list option" where
  "first_value [] = None"
| "first_value ((None, s) # rs) = first_value rs"
| "first_value ((Some v, s) # rs) = Some v"

section \<open>Properties\<close>

declare PcUpdate_loop.simps [simp del]
declare PcMerge_loop.simps [simp del]
declare is_empty_loop.simps [simp del]
declare count_row_loop.simps [simp del]
declare sum_loop.simps [simp del]
declare decimal.simps [simp del]

subsection \<open>Bytes and rows\<close>

lemma bit_word_of_bytes:
  "bit (word_of_bytes b0 b1 b2 b3) j \<longleftrightarrow>
     (if j < 8 then bit b0 j else if j < 16 then bit b1 (j - 8)
      else if j < 24 then bit b2 (j - 16) else bit b3 (j - 24))"
  by (auto simp add: word_of_bytes_def bit_simps dest: bit_imp_le_length)

lemma bit_byte_of_word:
  "bit (byte_of_word w k) j \<longleftrightarrow> j < 8 \<and> bit w (8 * k + j)"
  by (auto simp add: byte_of_word_def bit_simps dest: bit_imp_le_length)

lemma word_of_bytes_of_word [simp]:
  "word_of_bytes (byte_of_word w 0) (byte_of_word w 1) (byte_of_word w 2) (byte_of_word w 3) = w"
  by (rule bit_word_eqI) (auto simp add: bit_word_of_bytes bit_byte_of_word)

lemma bit_row: "j < 32 \<Longrightarrow> bit (row bitmap i) j = bitmap_bit bitmap i j"
proof -
  assume j: "j < 32"
  define q r where "q = j div 8" and "r = j mod 8"
  then have jqr: "j = 8 * q + r" and r: "r < 8"
    by simp_all
  with j have "q < 4" by simp
  then have "q = 0 \<or> q = 1 \<or> q = 2 \<or> q = 3" by arith
  moreover have "(8 * q + r) div 8 = q" "(8 * q + r) mod 8 = r"
    using r by simp_all
  ultimately show ?thesis
    using r unfolding jqr row_def bitmap_bit_def bit_word_of_bytes by auto
qed

lemma int_bitmap_read_eq:
  "4 * k + 4 \<le> length bitmap \<Longrightarrow> int_bitmap_read bitmap k = Inr (row bitmap k)"
  by (simp add: int_bitmap_read_def row_def)

lemma int_bitmap_write_eq:
  assumes "4 * k + 4 \<le> length bitmap"
  shows "\<exists>m. int_bitmap_write bitmap k w = Inr m \<and> length m = length bitmap
           \<and> row m k = w \<and> (\<forall>k'. k' \<noteq> k \<longrightarrow> row m k' = row bitmap k')"
proof -
  let ?m = "bitmap[4 * k := byte_of_word w 0, 4 * k + 1 := byte_of_word w 1,
                   4 * k + 2 := byte_of_word w 2, 4 * k + 3 := byte_of_word w 3]"
  have "int_bitmap_write bitmap k w = Inr ?m"
    using assms by (simp add: int_bitmap_write_def)
  moreover have "row ?m k = w"
    using assms word_of_bytes_of_word [of w] by (simp add: row_def)
  moreover have "row ?m k' = row bitmap k'" if "k' \<noteq> k" for k'
  proof -
    have far: "?m ! n = bitmap ! n" if "n < 4 * k \<or> 4 * k + 4 \<le> n" for n
      using that by (auto simp add: nth_list_update)
    have "4 * k' < 4 * k \<or> 4 * k + 4 \<le> 4 * k'"
      "4 * k' + 1 < 4 * k \<or> 4 * k + 4 \<le> 4 * k' + 1"
      "4 * k' + 2 < 4 * k \<or> 4 * k + 4 \<le> 4 * k' + 2"
      "4 * k' + 3 < 4 * k \<or> 4 * k + 4 \<le> 4 * k' + 3"
      using that by arith+
    then show ?thesis
      unfolding row_def by (simp only: far)
  qed
  ultimately show ?thesis by simp
qed

lemma SetDistinctEstimateBit_eq:
  assumes "4 * i + 4 \<le> length bitmap"
  shows "\<exists>m. SetDistinctEstimateBit p bitmap i j = Inr m \<and> length m = length bitmap
           \<and> row m i = row bitmap i OR shift_left_1 p j
           \<and> (\<forall>k. k \<noteq> i \<longrightarrow> row m k = row bitmap k)"
  using assms int_bitmap_write_eq [OF assms(1), of "row bitmap i OR shift_left_1 p j"]
  by (simp add: SetDistinctEstimateBit_def int_bitmap_read_eq)

lemma PcInit_simps:
  "\<not> is_null PcInit" "len PcInit = 256" "ptr PcInit = replicate 256 0"
  by (simp_all add: PcInit_def NUM_PC_BITMAPS_def PC_BITMAP_LENGTH_def)

subsection \<open>The column of a hash value\<close>

lemma count_trailing_zeros_less:
  assumes "h \<noteq> 0"
  shows "count_trailing_zeros h < 32"
proof -
  from assms obtain n where "bit h n"
    by (auto simp add: bit_eq_iff)
  then have "n < 32"
    by (auto dest: bit_imp_le_length)
  with \<open>bit h n\<close> have "\<exists>j\<in>set [0..<32]. \<not> \<not> bit h j"
    by auto
  then have "takeWhile (\<lambda>j. \<not> bit h j) [0..<32] \<noteq> [0..<32]"
    by (simp only: takeWhile_eq_all_conv) blast
  moreover have "takeWhile (\<lambda>j. \<not> bit h j) [0..<32]
      = take (length (takeWhile (\<lambda>j. \<not> bit h j) [0..<32])) [0..<32]"
    by (rule takeWhile_eq_take)
  ultimately have "length (takeWhile (\<lambda>j. \<not> bit h j) [0..<32]) < length [0..<32]"
    by (metis linorder_not_less take_all)
  then show ?thesis
    by (simp add: count_trailing_zeros_def)
qed

lemma count_trailing_zeros_bit:
  assumes "h \<noteq> 0"
  shows "bit h (count_trailing_zeros h)"
proof -
  let ?n = "length (takeWhile (\<lambda>j. \<not> bit h j) [0..<32])"
  have lt: "?n < length [0..<32]"
    using count_trailing_zeros_less [OF assms] by (simp add: count_trailing_zeros_def)
  then have "\<not> \<not> bit h ([0..<32] ! ?n)"
    by (rule nth_length_takeWhile)
  moreover have "[0..<32] ! ?n = ?n"
    using lt by (simp del: upt_Suc)
  ultimately show ?thesis
    by (simp add: count_trailing_zeros_def)
qed

lemma count_trailing_zeros_below:
  assumes "j < count_trailing_zeros h"
  shows "\<not> bit h j"
proof -
  let ?t = "takeWhile (\<lambda>j. \<not> bit h j) [0..<32]"
  have j: "j < length ?t"
    using assms by (simp add: count_trailing_zeros_def)
  then have "?t ! j \<in> set ?t"
    by (rule nth_mem)
  then have "\<not> bit h (?t ! j)"
    by (rule set_takeWhileD [THEN conjunct2])
  moreover have "?t ! j = [0..<32] ! j"
    using j by (rule takeWhile_nth)
  moreover have "j < 32"
    using j length_takeWhile_le [of "\<lambda>j. \<not> bit h j" "[0..<32]"] by simp
  ultimately show ?thesis
    by (simp del: upt_Suc)
qed

lemma column_less: "column h < 32"
  using count_trailing_zeros_less [of h] by (simp add: column_def)

subsection \<open>Plain update\<close>

lemma PcUpdate_loop_rows:
  assumes "256 \<le> length bitmap" and "i \<le> 64"
  shows "\<exists>m. PcUpdate_loop p Hash input bitmap i = Inr m \<and> length m = length bitmap
           \<and> (\<forall>k<64. row m k =
                 (if i \<le> k then row bitmap k OR push_bit (column (Hash input (int k))) 1
                  else row bitmap k))"
  using assms
proof (induction "64 - i" arbitrary: i bitmap)
  case 0
  then have "i = 64" by simp
  then show ?case
    using 0 by (subst PcUpdate_loop.simps) (simp add: NUM_PC_BITMAPS_def)
next
  case (Suc n)
  then have i: "i < 64" by simp
  let ?c = "column (Hash input (int i))"
  have c: "?c < 32" by (rule column_less)
  from i Suc.prems(1) have "4 * i + 4 \<le> length bitmap" by simp
  from SetDistinctEstimateBit_eq [OF this, of p ?c] c
  obtain m1 where m1: "SetDistinctEstimateBit p bitmap i ?c = Inr m1"
      "length m1 = length bitmap" "row m1 i = row bitmap i OR push_bit ?c 1"
      "\<forall>k. k \<noteq> i \<longrightarrow> row m1 k = row bitmap k"
    by (auto simp add: shift_left_1_def)
  have bi: "(if Hash input (int i) = 0 then PC_BITMAP_LENGTH - 1
             else builtin_ctz p (Hash input (int i))) = ?c"
    by (simp add: column_def builtin_ctz_def PC_BITMAP_LENGTH_def)
  have step: "PcUpdate_loop p Hash input bitmap i = PcUpdate_loop p Hash input m1 (i + 1)"
    using i m1(1) bi by (subst PcUpdate_loop.simps) (simp add: NUM_PC_BITMAPS_def Let_def)
  have "n = 64 - (i + 1)" "256 \<le> length m1" "i + 1 \<le> 64"
    using Suc.hyps(2) Suc.prems m1(2) i by simp_all
  from Suc.hyps(1) [OF this]
  obtain m where m: "PcUpdate_loop p Hash input m1 (i + 1) = Inr m" "length m = length m1"
      "\<forall>k<64. row m k =
         (if i + 1 \<le> k then row m1 k OR push_bit (column (Hash input (int k))) 1
          else row m1 k)"
    by blast
  have "row m k = (if i \<le> k then row bitmap k OR push_bit (column (Hash input (int k))) 1
                   else row bitmap k)" if "k < 64" for k
  proof (cases "k = i")
    case True
    with m(3) that m1(3) show ?thesis by simp
  next
    case False
    with m(3) that m1(4) show ?thesis by auto
  qed
  with step m(1,2) m1(2) show ?case by simp
qed

lemma bit_or_push_bit_1:
  "c < 32 \<Longrightarrow> j < 32 \<Longrightarrow> bit ((w :: uint32) OR push_bit c 1) j \<longleftrightarrow> bit w j \<or> j = c"
  by (auto simp add: bit_simps)

text \<open>
  C2. On a 256-byte bitmap the plain update succeeds and, for a non-null input, the bits
  set afterwards in each row \<open>i\<close> of 0..63 are exactly those set before together with the
  bit in column \<open>column (Hash input i)\<close>: the trailing-zero count of the hash seeded with
  \<open>i\<close>, or 31 when that hash is zero. A null input leaves the bitmap unchanged, and no
  bit is cleared.
\<close>

theorem PcUpdate_sets_bits:
  assumes "length (ptr dst) = 256"
  shows "\<exists>m. PcUpdate p Hash input dst = Inr (dst\<lparr>ptr := m\<rparr>) \<and> length m = 256
           \<and> (\<forall>i<64. \<forall>j<32. bitmap_bit m i j \<longleftrightarrow>
                  bitmap_bit (ptr dst) i j
                  \<or> (\<not> is_null input \<and> j = column (Hash input (int i))))
           \<and> (is_null input \<longrightarrow> m = ptr dst)"
proof (cases "is_null input")
  case True
  with assms show ?thesis
    by (simp add: PcUpdate_def)
next
  case False
  from PcUpdate_loop_rows [of "ptr dst" 0 p Hash input] assms
  obtain m where m: "PcUpdate_loop p Hash input (ptr dst) 0 = Inr m" "length m = 256"
      "\<forall>k<64. row m k = row (ptr dst) k OR push_bit (column (Hash input (int k))) 1"
    by auto
  have "bitmap_bit m i j \<longleftrightarrow> bitmap_bit (ptr dst) i j \<or> j = column (Hash input (int i))"
    if "i < 64" "j < 32" for i j
  proof -
    have "bitmap_bit m i j = bit (row m i) j"
      using that by (simp add: bit_row)
    also have "\<dots> = bit (row (ptr dst) i OR push_bit (column (Hash input (int i))) 1) j"
      using m(3) that by simp
    also have "\<dots> \<longleftrightarrow> bit (row (ptr dst) i) j \<or> j = column (Hash input (int i))"
      using that column_less [of "Hash input (int i)"] by (simp only: bit_or_push_bit_1)
    finally show ?thesis
      using that by (simp add: bit_row)
  qed
  with False m(1,2) show ?thesis
    by (intro exI [of _ m]) (simp add: PcUpdate_def)
qed

lemma ctz_200: "count_trailing_zeros 200 = 3"
  by code_simp

lemma column_example: "column (example_hash example_input 0) = 3"
  by (simp add: column_def example_hash_def example_input_def ctz_200)

theorem PcUpdate_sets_bits_witness:
  "length (ptr PcInit) = 256 \<and>
   (\<exists>m. PcUpdate example_platform example_hash example_input PcInit = Inr (PcInit\<lparr>ptr := m\<rparr>)
      \<and> length m = 256
      \<and> bitmap_bit m 0 3 \<and> \<not> bitmap_bit m 0 2
      \<and> (\<forall>i<64. \<forall>j<32. bitmap_bit m i j \<longleftrightarrow> j = column (example_hash example_input (int i))))"
proof -
  have len: "length (ptr PcInit) = 256"
    by (simp add: PcInit_simps)
  have z: "\<not> bitmap_bit (ptr PcInit) i j" if "i < 64" "j < 32" for i j
    using that by (simp add: PcInit_simps bitmap_bit_def)
  have nn: "\<not> is_null example_input"
    by (simp add: example_input_def)
  from PcUpdate_sets_bits [OF len, of example_platform example_hash example_input]
  obtain m where m: "PcUpdate example_platform example_hash example_input PcInit
        = Inr (PcInit\<lparr>ptr := m\<rparr>)" "length m = 256"
      "\<forall>i<64. \<forall>j<32. bitmap_bit m i j \<longleftrightarrow>
             bitmap_bit (ptr PcInit) i j
             \<or> (\<not> is_null example_input \<and> j = column (example_hash example_input (int i)))"
    by blast
  from m(3) z nn have all: "\<forall>i<64. \<forall>j<32. bitmap_bit m i j \<longleftrightarrow>
      j = column (example_hash example_input (int i))"
    by simp
  then have "bitmap_bit m 0 3" "\<not> bitmap_bit m 0 2"
    using column_example by simp_all
  with len m(1,2) all show ?thesis
    by blast
qed

subsection \<open>Stochastic-averaging update\<close>

text \<open>
  For a hash value that is 0 or at least 64 the stochastic-averaging update sets exactly
  one bit, the same on every platform: row \<open>hash mod 64\<close> and the column of
  \<open>hash div 64\<close>, or row 0 and column 31 when the hash is 0.
\<close>

lemma PcsaUpdate_sets_bit:
  fixes h :: uint32
  assumes "length (ptr dst) = 256" and "\<not> is_null input" and "h = Hash input 0"
    and "h = 0 \<or> 64 \<le> h"
  shows "\<exists>m. PcsaUpdate p Hash input dst = Inr (dst\<lparr>ptr := m\<rparr>) \<and> length m = 256
           \<and> (\<forall>i<64. \<forall>j<32. bitmap_bit m i j \<longleftrightarrow>
                  bitmap_bit (ptr dst) i j
                  \<or> (i = unat (h mod 64) \<and> j = column (h div 64) \<and> h \<noteq> 0)
                  \<or> (i = 0 \<and> j = 31 \<and> h = 0))"
proof -
  let ?r = "unat (h mod 64)"
  let ?c = "if h = 0 then 31 else column (h div 64)"
  have r: "?r < 64"
    by (simp add: unat_mod_distrib)
  have c: "?c < 32"
    using column_less [of "h div 64"] by simp
  have nz: "h div 64 \<noteq> 0" if "h \<noteq> 0"
  proof -
    from that assms(4) have "64 \<le> unat h"
      by (simp add: word_le_nat_alt)
    then have "1 \<le> unat h div 64"
      by simp
    then have "unat (h div 64) \<noteq> 0"
      by (simp add: unat_div_distrib)
    then show ?thesis
      by auto
  qed
  have bi: "(if h = 0 then PC_BITMAP_LENGTH - 1 else builtin_ctz p (h div 64)) = ?c"
    using nz by (simp add: builtin_ctz_def column_def PC_BITMAP_LENGTH_def)
  from r assms(1) have "4 * ?r + 4 \<le> length (ptr dst)"
    by simp
  from SetDistinctEstimateBit_eq [OF this, of p ?c] c
  obtain m where m: "SetDistinctEstimateBit p (ptr dst) ?r ?c = Inr m" "length m = 256"
      "row m ?r = row (ptr dst) ?r OR push_bit ?c 1"
      "\<forall>k. k \<noteq> ?r \<longrightarrow> row m k = row (ptr dst) k"
    using assms(1) by (auto simp add: shift_left_1_def)
  have upd: "PcsaUpdate p Hash input dst = Inr (dst\<lparr>ptr := m\<rparr>)"
    using assms(2) assms(3) [symmetric] bi m(1)
    by (simp add: PcsaUpdate_def Let_def NUM_PC_BITMAPS_def)
  have "bitmap_bit m i j \<longleftrightarrow>
          bitmap_bit (ptr dst) i j
          \<or> (i = ?r \<and> j = column (h div 64) \<and> h \<noteq> 0) \<or> (i = 0 \<and> j = 31 \<and> h = 0)"
    if "i < 64" "j < 32" for i j
  proof (cases "i = ?r")
    case True
    have "bitmap_bit m i j = bit (row (ptr dst) ?r OR push_bit ?c 1) j"
      using that True m(3) by (simp add: bit_row [symmetric])
    also have "\<dots> \<longleftrightarrow> bit (row (ptr dst) ?r) j \<or> j = ?c"
      using that c by (simp only: bit_or_push_bit_1)
    finally show ?thesis
      using that True by (auto simp add: bit_row)
  next
    case False
    then have "bitmap_bit m i j = bitmap_bit (ptr dst) i j"
      using that m(4) by (simp add: bit_row [symmetric])
    with False show ?thesis
      by auto
  qed
  with upd m(2) show ?thesis
    by (intro exI [of _ m]) simp
qed

text \<open>
  C3. The claim is that the trailing-zero count of \<^verbatim>\<open>PcsaUpdate\<close> never receives zero
  except where column 31 is substituted. With a hash value of 1 (any of 1..63 behaves
  alike) the hash is not zero, so nothing is substituted, while \<open>hash div 64\<close> is zero:
  the column is what \<^verbatim>\<open>__builtin_ctz(0)\<close> yields, and two machines that differ only in
  that value produce different bitmaps from the same input.
\<close>

theorem PcsaUpdate_small_hash:
  "hash_one example_input 0 \<noteq> 0
   \<and> hash_one example_input 0 div word_of_nat NUM_PC_BITMAPS = 0
   \<and> builtin_ctz p (hash_one example_input 0 div word_of_nat NUM_PC_BITMAPS) = ctz_zero p
   \<and> (\<exists>m. PcsaUpdate p hash_one example_input PcInit = Inr (PcInit\<lparr>ptr := m\<rparr>)
          \<and> row m 1 = shift_left_1 p (ctz_zero p))
   \<and> PcsaUpdate example_platform hash_one example_input PcInit
       \<noteq> PcsaUpdate other_platform hash_one example_input PcInit"
proof -
  have h: "hash_one example_input 0 \<noteq> 0"
      "hash_one example_input 0 div word_of_nat NUM_PC_BITMAPS = 0"
    by (simp_all add: hash_one_def NUM_PC_BITMAPS_def word_div_def)
  have c: "builtin_ctz p (hash_one example_input 0 div word_of_nat NUM_PC_BITMAPS) = ctz_zero p" for p
    by (simp add: h builtin_ctz_def)
  have r0: "row (ptr PcInit) 1 = 0"
    by (simp add: PcInit_simps row_def word_of_bytes_def)
  have upd: "\<exists>m. PcsaUpdate p hash_one example_input PcInit = Inr (PcInit\<lparr>ptr := m\<rparr>)
          \<and> row m 1 = shift_left_1 p (ctz_zero p)" for p
  proof -
    from SetDistinctEstimateBit_eq [of 1 "ptr PcInit" p "ctz_zero p"] r0
    obtain m where "SetDistinctEstimateBit p (ptr PcInit) 1 (ctz_zero p) = Inr m"
        "row m 1 = shift_left_1 p (ctz_zero p)"
      by (auto simp add: PcInit_simps)
    moreover have "unat (hash_one example_input 0 mod word_of_nat NUM_PC_BITMAPS) = 1"
      by (simp add: hash_one_def NUM_PC_BITMAPS_def word_mod_def)
    ultimately show ?thesis
      using h c [of p]
      by (intro exI [of _ m]) (simp add: PcsaUpdate_def example_input_def Let_def)
  qed
  have "PcsaUpdate example_platform hash_one example_input PcInit
       \<noteq> PcsaUpdate other_platform hash_one example_input PcInit"
  proof
    assume eq: "PcsaUpdate example_platform hash_one example_input PcInit
       = PcsaUpdate other_platform hash_one example_input PcInit"
    from upd [of example_platform] obtain m where
        m: "PcsaUpdate example_platform hash_one example_input PcInit = Inr (PcInit\<lparr>ptr := m\<rparr>)"
           "row m 1 = shift_left_1 example_platform (ctz_zero example_platform)"
      by blast
    from upd [of other_platform] obtain m' where
        m': "PcsaUpdate other_platform hash_one example_input PcInit = Inr (PcInit\<lparr>ptr := m'\<rparr>)"
           "row m' 1 = shift_left_1 other_platform (ctz_zero other_platform)"
      by blast
    from eq m(1) m'(1) have "ptr (PcInit\<lparr>ptr := m\<rparr>) = ptr (PcInit\<lparr>ptr := m'\<rparr>)"
      by simp
    then have "m = m'" by simp
    with m(2) m'(2) show False
      by (simp add: shift_left_1_def example_platform_def other_platform_def)
  qed
  with h c upd show ?thesis by blast
qed

subsection \<open>Merge\<close>

lemma PcMerge_loop_eq:
  "length src = 256 \<Longrightarrow> length dst = 256 \<Longrightarrow> i \<le> 256 \<Longrightarrow>
   PcMerge_loop src dst i =
     Inr (take i dst @ map2 (OR) (drop i dst) (drop i src))"
proof (induction src dst i rule: PcMerge_loop.induct)
  case (1 src dst i)
  show ?case
  proof (cases "i < 256")
    case False
    with 1 show ?thesis
      by (subst PcMerge_loop.simps) (simp add: NUM_PC_BITMAPS_def PC_BITMAP_LENGTH_def)
  next
    case True
    let ?d = "dst[i := dst ! i OR src ! i]"
    have step: "PcMerge_loop src dst i = PcMerge_loop src ?d (i + 1)"
      using True 1(2,3)
      by (subst PcMerge_loop.simps)
         (simp add: NUM_PC_BITMAPS_def PC_BITMAP_LENGTH_def read_byte_def write_byte_def)
    have ih: "PcMerge_loop src ?d (i + 1) =
        Inr (take (i + 1) ?d @ map2 (OR) (drop (i + 1) ?d) (drop (i + 1) src))"
      using True 1(2,3)
      by (intro "1.IH")
         (simp_all add: NUM_PC_BITMAPS_def PC_BITMAP_LENGTH_def read_byte_def write_byte_def)
    have "take (i + 1) ?d @ map2 (OR) (drop (i + 1) ?d) (drop (i + 1) src)
        = take i dst @ map2 (OR) (drop i dst) (drop i src)"
      using True 1(2,3)
      by (simp add: take_Suc_conv_app_nth Cons_nth_drop_Suc [symmetric])
    with step ih show ?thesis by simp
  qed
qed

text \<open>
  C4. On two non-null 256-byte bitmaps \<open>A\<close> and \<open>B\<close>, \<^verbatim>\<open>PcMerge\<close> leaves in the destination
  the byte-wise OR of both; merging \<open>B\<close> into \<open>A\<close> and \<open>A\<close> into \<open>B\<close> leave the same
  contents (commutative), and merging \<open>A\<close> into itself leaves \<open>A\<close> unchanged (idempotent).
\<close>

theorem PcMerge_commutative_idempotent:
  assumes "\<not> is_null A" and "\<not> is_null B"
    and "len A = 256" and "len B = 256"
    and "length (ptr A) = 256" and "length (ptr B) = 256"
  shows "PcMerge p B A = Inr (A\<lparr>ptr := map2 (OR) (ptr A) (ptr B)\<rparr>)
       \<and> PcMerge p A B = Inr (B\<lparr>ptr := map2 (OR) (ptr A) (ptr B)\<rparr>)
       \<and> PcMerge p A A = Inr A"
proof -
  have ba: "PcMerge_loop (ptr B) (ptr A) 0 = Inr (map2 (OR) (ptr A) (ptr B))"
    using assms by (simp add: PcMerge_loop_eq)
  have "map2 (OR) (ptr B) (ptr A) = map2 (OR) (ptr A) (ptr B)"
    using assms by (intro nth_equalityI) (simp_all add: ac_simps)
  then have ab: "PcMerge_loop (ptr A) (ptr B) 0 = Inr (map2 (OR) (ptr A) (ptr B))"
    using assms by (simp add: PcMerge_loop_eq)
  have "map2 (OR) (ptr A) (ptr A) = ptr A"
    by (intro nth_equalityI) simp_all
  then have aa: "PcMerge_loop (ptr A) (ptr A) 0 = Inr (ptr A)"
    using assms by (simp add: PcMerge_loop_eq)
  show ?thesis
    using assms ba ab aa by (simp add: PcMerge_def DCHECK_def NUM_PC_BITMAPS_def PC_BITMAP_LENGTH_def)
qed

theorem PcMerge_commutative_idempotent_witness:
  "(let A = \<lparr>is_null = False, len = 256, ptr = replicate 256 (1 :: byte)\<rparr>;
        B = \<lparr>is_null = False, len = 256, ptr = replicate 256 (6 :: byte)\<rparr>
    in \<not> is_null A \<and> \<not> is_null B \<and> len A = 256 \<and> len B = 256
     \<and> length (ptr A) = 256 \<and> length (ptr B) = 256
     \<and> PcMerge example_platform B A = Inr (A\<lparr>ptr := replicate 256 7\<rparr>)
     \<and> PcMerge example_platform A B = Inr (B\<lparr>ptr := replicate 256 7\<rparr>)
     \<and> PcMerge example_platform A A = Inr A)"
  using PcMerge_commutative_idempotent
    [of "\<lparr>is_null = False, len = 256, ptr = replicate 256 (1 :: byte)\<rparr>"
        "\<lparr>is_null = False, len = 256, ptr = replicate 256 (6 :: byte)\<rparr>" example_platform]
  by simp

subsection \<open>Length checks\<close>

lemma SetDistinctEstimateBit_no_dcheck:
  "SetDistinctEstimateBit p bitmap i j \<noteq> Inl DCheckFailed"
  by (simp add: SetDistinctEstimateBit_def int_bitmap_read_def int_bitmap_write_def)

lemma PcUpdate_loop_no_dcheck:
  "PcUpdate_loop p Hash input bitmap i \<noteq> Inl DCheckFailed"
proof (induction "64 - i" arbitrary: i bitmap)
  case 0
  then show ?case
    by (subst PcUpdate_loop.simps) (simp add: NUM_PC_BITMAPS_def)
next
  case (Suc n)
  then have "n = 64 - (i + 1)" by simp
  then have "PcUpdate_loop p Hash input m (i + 1) \<noteq> Inl DCheckFailed" for m
    by (rule Suc.hyps(1))
  then show ?case
    using SetDistinctEstimateBit_no_dcheck [of p bitmap i]
    by (subst PcUpdate_loop.simps) (auto simp add: Let_def split: sum.splits)
qed

lemma PcMerge_loop_no_dcheck:
  "PcMerge_loop src dst i \<noteq> Inl DCheckFailed"
proof (induction "256 - i" arbitrary: i dst)
  case 0
  then show ?case
    by (subst PcMerge_loop.simps) (simp add: NUM_PC_BITMAPS_def PC_BITMAP_LENGTH_def)
next
  case (Suc n)
  then have "n = 256 - (i + 1)" by simp
  then have "PcMerge_loop src m (i + 1) \<noteq> Inl DCheckFailed" for m
    by (rule Suc.hyps(1))
  then show ?case
    by (subst PcMerge_loop.simps)
       (auto simp add: read_byte_def write_byte_def split: sum.splits)
qed

lemma PcMerge_loop_nth:
  assumes "256 \<le> length src" and "256 \<le> length dst" and "i \<le> 256"
  shows "\<exists>m. PcMerge_loop src dst i = Inr m \<and> length m = length dst
           \<and> (\<forall>k<length dst. m ! k =
                 (if i \<le> k \<and> k < 256 then dst ! k OR src ! k else dst ! k))"
  using assms(2,3)
proof (induction "256 - i" arbitrary: i dst)
  case 0
  then show ?case
    by (subst PcMerge_loop.simps) (auto simp add: NUM_PC_BITMAPS_def PC_BITMAP_LENGTH_def)
next
  case (Suc n)
  then have i: "i < 256" by simp
  let ?d = "dst[i := dst ! i OR src ! i]"
  have step: "PcMerge_loop src dst i = PcMerge_loop src ?d (i + 1)"
    using i assms(1) Suc.prems(1)
    by (subst PcMerge_loop.simps)
       (simp add: NUM_PC_BITMAPS_def PC_BITMAP_LENGTH_def read_byte_def write_byte_def)
  have "n = 256 - (i + 1)" "256 \<le> length ?d" "i + 1 \<le> 256"
    using Suc.hyps(2) Suc.prems i by simp_all
  from Suc.hyps(1) [OF this]
  obtain m where m: "PcMerge_loop src ?d (i + 1) = Inr m" "length m = length ?d"
      "\<forall>k<length ?d. m ! k = (if i + 1 \<le> k \<and> k < 256 then ?d ! k OR src ! k else ?d ! k)"
    by blast
  have "m ! k = (if i \<le> k \<and> k < 256 then dst ! k OR src ! k else dst ! k)"
    if "k < length dst" for k
    using m(3) that i by (cases "k = i") (auto simp add: nth_list_update)
  with step m(1,2) show ?case by simp
qed

text \<open>
  C5, as stated, fails: a bitmap operand of 260 bytes, with \<open>len = 260\<close>, is processed by
  both updates and, as the destination, by the merge of a debug build; none of them
  aborts.
\<close>

theorem sketch_length_unchecked_counterexample:
  "len long_bitmap \<noteq> 256 \<and> length (ptr long_bitmap) \<noteq> 256
   \<and> \<not> isl (PcUpdate example_platform example_hash example_input long_bitmap)
   \<and> \<not> isl (PcsaUpdate example_platform example_hash example_input long_bitmap)
   \<and> PcMerge example_platform PcInit long_bitmap = Inr long_bitmap"
proof -
  have l: "length (ptr long_bitmap) = 260" "len long_bitmap = 260"
    by (simp_all add: long_bitmap_def)
  from PcUpdate_loop_rows [of "ptr long_bitmap" 0 example_platform example_hash example_input]
  have 1: "\<not> isl (PcUpdate example_platform example_hash example_input long_bitmap)"
    using l by (auto simp add: PcUpdate_def example_input_def)
  have "unat ((200 :: uint32) mod 64) = 8"
    by simp
  with SetDistinctEstimateBit_eq [of 8 "ptr long_bitmap" example_platform]
  have 2: "\<not> isl (PcsaUpdate example_platform example_hash example_input long_bitmap)"
    using l
    apply (simp add: PcsaUpdate_def example_input_def example_hash_def NUM_PC_BITMAPS_def Let_def)
    apply (metis (no_types, lifting) sum.case(2) sum.disc(2))
    done
  from PcMerge_loop_nth [of "ptr PcInit" "ptr long_bitmap" 0]
  obtain m where m: "PcMerge_loop (ptr PcInit) (ptr long_bitmap) 0 = Inr m"
      "length m = 260"
      "\<forall>k<260. m ! k = (if k < 256 then ptr long_bitmap ! k OR ptr PcInit ! k
                           else ptr long_bitmap ! k)"
    using l by (auto simp add: PcInit_simps)
  have "m = ptr long_bitmap"
    using m(2,3) l by (intro nth_equalityI) (auto simp add: PcInit_simps)
  with m(1) have 3: "PcMerge example_platform PcInit long_bitmap = Inr long_bitmap"
    by (simp add: PcMerge_def DCHECK_def PcInit_simps NUM_PC_BITMAPS_def PC_BITMAP_LENGTH_def
                  long_bitmap_def)
  from l 1 2 3 show ?thesis by simp
qed

text \<open>
  C5, amended. \<^verbatim>\<open>PcMerge\<close> aborts on a failed check exactly when checks are compiled in
  and the source is null, the destination is null, or the length of the source is not
  256. It does not check the length of the destination, and \<^verbatim>\<open>PcUpdate\<close> and
  \<^verbatim>\<open>PcsaUpdate\<close> never fail a check, whatever the length of the bitmap.
\<close>

theorem sketch_checks:
  "(PcMerge p src dst = Inl DCheckFailed
      \<longleftrightarrow> dchecks p \<and> (is_null src \<or> is_null dst \<or> len src \<noteq> 256))
   \<and> PcUpdate p Hash input bitmap \<noteq> Inl DCheckFailed
   \<and> PcsaUpdate p Hash input bitmap \<noteq> Inl DCheckFailed"
proof -
  have 1: "PcMerge p src dst = Inl DCheckFailed
      \<longleftrightarrow> dchecks p \<and> (is_null src \<or> is_null dst \<or> len src \<noteq> 256)"
    using PcMerge_loop_no_dcheck [of "ptr src" "ptr dst" 0]
    by (auto simp add: PcMerge_def DCHECK_def NUM_PC_BITMAPS_def PC_BITMAP_LENGTH_def
             split: sum.splits)
  have 2: "PcUpdate p Hash input bitmap \<noteq> Inl DCheckFailed"
    using PcUpdate_loop_no_dcheck [of p Hash input "ptr bitmap" 0]
    by (auto simp add: PcUpdate_def split: sum.splits)
  have 3: "PcsaUpdate p Hash input bitmap \<noteq> Inl DCheckFailed"
    using SetDistinctEstimateBit_no_dcheck [of p "ptr bitmap"]
    by (auto simp add: PcsaUpdate_def Let_def split: sum.splits)
  from 1 2 3 show ?thesis by blast
qed

theorem sketch_checks_witness:
  "dchecks example_platform \<and> len short_bitmap \<noteq> 256
   \<and> PcMerge example_platform short_bitmap PcInit = Inl DCheckFailed
   \<and> PcUpdate example_platform example_hash example_input short_bitmap \<noteq> Inl DCheckFailed
   \<and> PcsaUpdate example_platform example_hash example_input short_bitmap \<noteq> Inl DCheckFailed"
  using sketch_checks [of example_platform short_bitmap PcInit example_hash example_input short_bitmap]
  by (simp add: example_platform_def short_bitmap_def)

subsection \<open>Finalize\<close>

lemma is_empty_loop_eq:
  assumes "256 \<le> length mem" and "i \<le> 256"
  shows "is_empty_loop mem i = Inr (\<forall>k. i \<le> k \<and> k < 256 \<longrightarrow> mem ! k = 0)"
  using assms
proof (induction "256 - i" arbitrary: i)
  case 0
  then show ?case
    by (subst is_empty_loop.simps) (auto simp add: NUM_PC_BITMAPS_def PC_BITMAP_LENGTH_def)
next
  case (Suc n)
  then have i: "i < 256" by simp
  show ?case
  proof (cases "mem ! i = 0")
    case False
    with i Suc.prems have "is_empty_loop mem i = Inr False"
      by (subst is_empty_loop.simps)
         (simp add: NUM_PC_BITMAPS_def PC_BITMAP_LENGTH_def read_byte_def)
    moreover from False i have "\<not> (\<forall>k. i \<le> k \<and> k < 256 \<longrightarrow> mem ! k = 0)"
      by auto
    ultimately show ?thesis by simp
  next
    case True
    with i Suc.prems have "is_empty_loop mem i = is_empty_loop mem (i + 1)"
      by (subst is_empty_loop.simps)
         (simp add: NUM_PC_BITMAPS_def PC_BITMAP_LENGTH_def read_byte_def)
    also have "\<dots> = Inr (\<forall>k. i + 1 \<le> k \<and> k < 256 \<longrightarrow> mem ! k = 0)"
      using Suc.hyps(2) Suc.prems i by (intro Suc.hyps(1)) simp_all
    also have "(\<forall>k. i + 1 \<le> k \<and> k < 256 \<longrightarrow> mem ! k = 0)
        \<longleftrightarrow> (\<forall>k. i \<le> k \<and> k < 256 \<longrightarrow> mem ! k = 0)"
      using True by (metis Suc_eq_plus1 Suc_leI le_neq_implies_less Suc_leD)
    finally show ?thesis .
  qed
qed

lemma GetDistinctEstimateBit_eq:
  assumes "4 * i + 4 \<le> length bitmap"
  shows "GetDistinctEstimateBit p bitmap i j =
           Inr (if j < 32 then bitmap_bit bitmap i j else 0 < (row bitmap i AND shl_wide p j))"
  using assms
  by (simp add: GetDistinctEstimateBit_def int_bitmap_read_eq shift_left_1_def
                word_greater_zero_iff and_exp_eq_0_iff_not_bit bit_row)

lemma count_row_loop_eq:
  assumes "4 * i + 4 \<le> length bitmap" and "c \<le> 32"
  shows "count_row_loop p bitmap i c reads =
           Inr (c + length (takeWhile (bitmap_bit bitmap i) [c..<32]),
                reads @ [c..<Suc (c + length (takeWhile (bitmap_bit bitmap i) [c..<32]))])"
  using assms(2)
proof (induction "32 - c" arbitrary: c reads)
  case 0
  then have c: "c = 32" by simp
  show ?case
    unfolding c
    by (subst count_row_loop.simps)
       (simp add: GetDistinctEstimateBit_eq [OF assms(1)] PC_BITMAP_LENGTH_def)
next
  case (Suc n)
  then have c: "c < 32" by simp
  then have upt: "[c..<32] = c # [Suc c..<32]"
    by (simp add: upt_conv_Cons)
  show ?case
  proof (cases "bitmap_bit bitmap i c")
    case False
    with c show ?thesis
      unfolding upt
      by (subst count_row_loop.simps)
         (simp add: GetDistinctEstimateBit_eq [OF assms(1)] PC_BITMAP_LENGTH_def)
  next
    case True
    let ?r = "length (takeWhile (bitmap_bit bitmap i) [Suc c..<32])"
    have "count_row_loop p bitmap i c reads = count_row_loop p bitmap i (c + 1) (reads @ [c])"
      using c True
      by (subst count_row_loop.simps)
         (simp add: GetDistinctEstimateBit_eq [OF assms(1)] PC_BITMAP_LENGTH_def)
    also have "\<dots> = Inr (c + 1 + ?r, (reads @ [c]) @ [c + 1..<Suc (c + 1 + ?r)])"
      using Suc.hyps(2) c Suc.hyps(1) [of "c + 1" "reads @ [c]"] by simp
    also have "[c..<Suc (Suc c + ?r)] = c # [Suc c..<Suc (Suc c + ?r)]"
      by (rule upt_conv_Cons) simp
    then have "(reads @ [c]) @ [c + 1..<Suc (c + 1 + ?r)] = reads @ [c..<Suc (Suc c + ?r)]"
      by (simp del: upt_Suc)
    finally show ?thesis
      unfolding upt using True by (simp del: upt_Suc)
  qed
qed

lemma sum_loop_eq:
  assumes "256 \<le> length bitmap" and "i \<le> 64"
  shows "sum_loop p bitmap i s = Inr (s + (\<Sum>k = i..<64. int (leading_run bitmap k)))"
  using assms(2)
proof (induction "64 - i" arbitrary: i s)
  case 0
  then show ?case
    by (subst sum_loop.simps) (simp add: NUM_PC_BITMAPS_def)
next
  case (Suc n)
  then have i: "i < 64" by simp
  with assms(1) have "4 * i + 4 \<le> length bitmap" by simp
  from count_row_loop_eq [OF this, of 0 p "[]"]
  have "sum_loop p bitmap i s = sum_loop p bitmap (i + 1) (s + int (leading_run bitmap i))"
    using i by (subst sum_loop.simps) (simp add: NUM_PC_BITMAPS_def leading_run_def)
  also have "\<dots> = Inr (s + int (leading_run bitmap i)
                        + (\<Sum>k = i + 1..<64. int (leading_run bitmap k)))"
    using Suc.hyps(2) i by (intro Suc.hyps(1)) simp_all
  also have "s + int (leading_run bitmap i) + (\<Sum>k = i + 1..<64. int (leading_run bitmap k))
      = s + (\<Sum>k = i..<64. int (leading_run bitmap k))"
    using i by (simp add: sum.atLeast_Suc_lessThan)
  finally show ?case .
qed

lemma all_bytes_zero_iff:
  assumes "length mem = 256"
  shows "(\<forall>k. 0 \<le> k \<and> k < 256 \<longrightarrow> mem ! k = 0) \<longleftrightarrow> (\<forall>b\<in>set mem. b = 0)"
  using assms by (auto simp add: all_set_conv_all_nth)

lemma DistinceEstimateFinalize_eq:
  assumes "\<not> is_null src" and "len src = 256" and "length (ptr src) = 256"
  shows "DistinceEstimateFinalize p src =
     Inr (if \<forall>b\<in>set (ptr src). b = 0 then 0
          else fdiv p (pow p 2 (fdiv p (real_of_int (\<Sum>i<64. int (leading_run (ptr src) i))) 64))
                 PC_THETA)"
proof -
  have e: "is_empty_loop (ptr src) 0 = Inr (\<forall>b\<in>set (ptr src). b = 0)"
    using assms(3) is_empty_loop_eq [of "ptr src" 0] all_bytes_zero_iff [OF assms(3)] by simp
  have s: "sum_loop p (ptr src) 0 0 = Inr (\<Sum>i<64. int (leading_run (ptr src) i))"
    using assms(3) sum_loop_eq [of "ptr src" 0 p 0] by (simp add: atLeast0LessThan)
  show ?thesis
    using assms(1,2)
    by (simp add: DistinceEstimateFinalize_def DCHECK_def e s NUM_PC_BITMAPS_def
                  PC_BITMAP_LENGTH_def)
qed

lemma length_decimal_pos: "1 \<le> length (decimal n)"
  by (subst decimal.simps) simp

lemma length_decimal_le: "n < 10 ^ k \<Longrightarrow> 1 \<le> k \<Longrightarrow> length (decimal n) \<le> k"
proof (induction n arbitrary: k rule: decimal.induct)
  case (1 n)
  show ?case
  proof (cases "n < 10")
    case True
    with 1(3) show ?thesis by (subst decimal.simps) simp
  next
    case False
    then have "2 \<le> k"
      using 1(2,3) by (cases k) (auto simp add: Suc_le_eq intro!: Suc_leI gr0I)
    then obtain k' where k: "k = Suc k'" "1 \<le> k'"
      by (cases k) auto
    with 1(2) have "n div 10 < 10 ^ k'"
      by (simp add: less_mult_imp_div_less mult.commute)
    with False k(2) have "length (decimal (n div 10)) \<le> k'"
      by (intro "1.IH") simp_all
    with False k show ?thesis by (subst decimal.simps) simp
  qed
qed

lemma length_int64_to_string: "1 \<le> length (int64_to_string w) \<and> length (int64_to_string w) \<le> 20"
proof -
  have lo: "- (2 ^ 63) \<le> sint w" and hi: "sint w < 2 ^ 63"
    using sint_ge [of w] sint_lt [of w] by simp_all
  have p: "(2 :: nat) ^ 63 < 10 ^ 19" by simp
  show ?thesis
  proof (cases "sint w < 0")
    case True
    with lo have "nat (- sint w) \<le> 2 ^ 63" by simp
    with p have "nat (- sint w) < 10 ^ 19" by simp
    then have "length (decimal (nat (- sint w))) \<le> 19"
      by (rule length_decimal_le) simp
    with True length_decimal_pos [of "nat (- sint w)"] show ?thesis
      by (simp add: int64_to_string_def)
  next
    case False
    with hi have "nat (sint w) < 2 ^ 63" by simp
    with p have "nat (sint w) < 10 ^ 19" by simp
    then have "length (decimal (nat (sint w))) \<le> 19"
      by (rule length_decimal_le) simp
    with False length_decimal_pos [of "nat (sint w)"] show ?thesis
      by (simp add: int64_to_string_def)
  qed
qed

lemma write_estimate:
  assumes "length (ptr src) = 256"
  shows "(case memcpy (ptr src) 0 (int64_to_string w) of
            Inl e \<Rightarrow> Inl e
          | Inr m \<Rightarrow> Inr (src\<lparr>ptr := m, len := int (length (int64_to_string w))\<rparr>))
       = Inr (src\<lparr>ptr := int64_to_string w @ drop (length (int64_to_string w)) (ptr src),
                  len := int (length (int64_to_string w))\<rparr>)"
  using assms length_int64_to_string [of w] by (simp add: memcpy_def)

lemma PcFinalize_eq:
  assumes "DistinceEstimateFinalize p src = Inr e" and "length (ptr src) = 256"
  shows "PcFinalize p src =
     Inr (src\<lparr>ptr := int64_to_string (double_to_int64 e)
                     @ drop (length (int64_to_string (double_to_int64 e))) (ptr src),
              len := int (length (int64_to_string (double_to_int64 e)))\<rparr>)"
  using assms(1) write_estimate [OF assms(2)] by (simp add: PcFinalize_def Let_def)

lemma PcsaFinalize_eq:
  assumes "DistinceEstimateFinalize p src = Inr e" and "length (ptr src) = 256"
  shows "PcsaFinalize p src =
     Inr (src\<lparr>ptr := int64_to_string (double_to_int64 (fmul p e 64))
                     @ drop (length (int64_to_string (double_to_int64 (fmul p e 64)))) (ptr src),
              len := int (length (int64_to_string (double_to_int64 (fmul p e 64))))\<rparr>)"
  using assms(1) write_estimate [OF assms(2)]
  by (simp add: PcsaFinalize_def Let_def NUM_PC_BITMAPS_def)


lemma int64_to_string_0: "int64_to_string (double_to_int64 0) = [48]"
  by (simp add: int64_to_string_def double_to_int64_def decimal.simps [of 0])


lemma leading_run_bytes_1:
  assumes "i < 64"
  shows "leading_run (replicate 256 1) i = 1"
proof -
  have "[0..<32] = 0 # 1 # [2..<32]"
    by (simp add: upt_conv_Cons)
  moreover have "bitmap_bit (replicate 256 1) i 0" "\<not> bitmap_bit (replicate 256 1) i 1"
    using assms by (simp_all add: bitmap_bit_def)
  ultimately show ?thesis
    by (simp add: leading_run_def del: upt_Suc)
qed

lemma sum_leading_run_bytes_1: "(\<Sum>i<64. int (leading_run (replicate 256 1) i)) = 64"
  by (simp add: leading_run_bytes_1)

lemma decimal_2: "decimal 2 = [50]"
  by (simp add: decimal.simps [of 2])

lemma decimal_165: "decimal 165 = [49, 54, 53]"
  by (simp add: decimal.simps [of 165] decimal.simps [of 16] decimal.simps [of "Suc 0"])


text \<open>
  C9, as stated, fails: \<^verbatim>\<open>PcFinalize\<close> on the all-zero bitmap of \<^verbatim>\<open>PcInit\<close> leaves the
  character \<open>0\<close> (byte 48) in the first byte of the bitmap it has just scanned.
\<close>

theorem PcFinalize_overwrites_counterexample:
  "ptr PcInit = replicate 256 0
   \<and> PcFinalize example_platform PcInit = Inr (PcInit\<lparr>ptr := 48 # replicate 255 0, len := 1\<rparr>)"
proof -
  have "DistinceEstimateFinalize example_platform PcInit = Inr 0"
    using DistinceEstimateFinalize_eq [of PcInit example_platform] by (simp add: PcInit_simps)
  from PcFinalize_eq [OF this] show ?thesis
    by (simp add: PcInit_simps int64_to_string_0)
qed

text \<open>
  C9, amended. For a non-null 256-byte bitmap the estimate is computed from the bitmap
  without changing it; \<^verbatim>\<open>PcFinalize\<close> and \<^verbatim>\<open>PcsaFinalize\<close> then write the decimal text of
  the truncated estimate, of 1 to 20 bytes, over the first bytes of that same buffer and
  return it with \<open>len\<close> set to the length of the text; the bytes after the text are
  unchanged.
\<close>

theorem Finalize_overwrites_prefix:
  assumes "\<not> is_null src" and "len src = 256" and "length (ptr src) = 256"
  shows "\<exists>e str str'.
      DistinceEstimateFinalize p src = Inr e
    \<and> str = int64_to_string (double_to_int64 e)
    \<and> str' = int64_to_string (double_to_int64 (fmul p e 64))
    \<and> PcFinalize p src = Inr (src\<lparr>ptr := str @ drop (length str) (ptr src),
                                    len := int (length str)\<rparr>)
    \<and> PcsaFinalize p src = Inr (src\<lparr>ptr := str' @ drop (length str') (ptr src),
                                      len := int (length str')\<rparr>)
    \<and> 1 \<le> length str \<and> length str \<le> 20 \<and> 1 \<le> length str' \<and> length str' \<le> 20"
proof -
  from DistinceEstimateFinalize_eq [OF assms, of p]
  obtain e where e: "DistinceEstimateFinalize p src = Inr e"
    by blast
  show ?thesis
    using e PcFinalize_eq [OF e assms(3)] PcsaFinalize_eq [OF e assms(3)]
      length_int64_to_string [of "double_to_int64 e"]
      length_int64_to_string [of "double_to_int64 (fmul p e 64)"]
    by blast
qed

theorem Finalize_overwrites_prefix_witness:
  "\<not> is_null (bitmap_of_byte 1) \<and> len (bitmap_of_byte 1) = 256
   \<and> length (ptr (bitmap_of_byte 1)) = 256
   \<and> PcFinalize example_platform (bitmap_of_byte 1)
       = Inr \<lparr>is_null = False, len = 1, ptr = 50 # replicate 255 1\<rparr>
   \<and> PcsaFinalize example_platform (bitmap_of_byte 1)
       = Inr \<lparr>is_null = False, len = 3, ptr = [49, 54, 53] @ replicate 253 1\<rparr>"
proof -
  let ?B = "bitmap_of_byte 1"
  have h: "\<not> is_null ?B" "len ?B = 256" "length (ptr ?B) = 256"
    by (simp_all add: bitmap_of_byte_def)
  have nz: "\<not> (\<forall>b\<in>set (ptr ?B). b = 0)"
    by (simp add: bitmap_of_byte_def)
  have e: "DistinceEstimateFinalize example_platform ?B = Inr (524288 / 202771)"
    using DistinceEstimateFinalize_eq [OF h, of example_platform] nz
    by (simp add: bitmap_of_byte_def sum_leading_run_bytes_1 example_platform_def PC_THETA_def)
  have t: "double_to_int64 (524288 / 202771) = 2"
      "double_to_int64 (fmul example_platform (524288 / 202771) 64) = 165"
    by (simp_all add: double_to_int64_def example_platform_def)
  have s: "int64_to_string 2 = [50]" "int64_to_string 165 = [49, 54, 53]"
    by (simp_all add: int64_to_string_def decimal_2 decimal_165)
  from Finalize_overwrites_prefix [OF h, of example_platform]
  obtain e' str str' where r:
      "DistinceEstimateFinalize example_platform ?B = Inr e'"
      "str = int64_to_string (double_to_int64 e')"
      "str' = int64_to_string (double_to_int64 (fmul example_platform e' 64))"
      "PcFinalize example_platform ?B
         = Inr (?B\<lparr>ptr := str @ drop (length str) (ptr ?B), len := int (length str)\<rparr>)"
      "PcsaFinalize example_platform ?B
         = Inr (?B\<lparr>ptr := str' @ drop (length str') (ptr ?B), len := int (length str')\<rparr>)"
    by blast
  from r(1) e have "e' = 524288 / 202771"
    by (simp only: sum.inject)
  with r(2,3) t s have "str = [50]" "str' = [49, 54, 53]"
    by (simp_all only:)
  with r(4,5) h show ?thesis
    by (simp add: bitmap_of_byte_def)
qed

text \<open>
  C10. The claim is that the counting loop reads only columns 0..31. On a row whose 32
  bits are all set the loop of the source calls \<^verbatim>\<open>GetDistinctEstimateBit\<close> with the
  columns 0, 1, ..., 31 and then 32, because the bit is read before
  \<^verbatim>\<open>row_bit_count < PC_BITMAP_LENGTH\<close> is tested; the count it returns is 32.
\<close>

theorem count_row_loop_reads_column_32:
  "count_row_loop p (ptr (bitmap_of_byte 255)) 0 0 [] = Inr (32, [0..<32] @ [32])"
proof -
  have "bitmap_bit (replicate 256 255) 0 j" if "j < 32" for j
  proof -
    have "(255 :: byte) = - 1" by simp
    then have "bit (255 :: byte) (j mod 8)"
      by (simp only: bit_minus_1_iff) simp
    with that show ?thesis
      by (simp add: bitmap_bit_def)
  qed
  then have "takeWhile (bitmap_bit (replicate 256 255) 0) [0..<32] = [0..<32]"
    by (simp only: takeWhile_eq_all_conv) simp
  then have n: "length (takeWhile (bitmap_bit (replicate 256 255) 0) [0..<32]) = 32"
    by (simp only: length_upt)
  have "[0..<Suc 32] = [0..<32] @ [32]"
    by (rule upt_Suc_append) simp
  with count_row_loop_eq [of 0 "replicate 256 255" 0 p "[]"] show ?thesis
    unfolding n bitmap_of_byte_def by (simp del: upt_Suc)
qed

subsection \<open>Sum\<close>









subsection \<open>The scratch buffer\<close>

lemma holdsI:
  "buffer s = Some m \<Longrightarrow> buffer_len s = int (length m) \<Longrightarrow> str_len s = int (length c)
   \<Longrightarrow> length c \<le> length m \<Longrightarrow> take (length c) m = c \<Longrightarrow> holds s c"
  by (auto simp add: holds_def)

lemma read_string_val: "read_bytes (ptr (string_val v)) (len (string_val v)) = Inr v"
  by (simp add: read_bytes_def string_val_def)

lemma ResizeBufferTo_fresh:
  assumes "buffer_len s < n"  and "0 \<le> buffer_len s"
  shows "ResizeBufferTo p ctx s n False =
     Inr (s\<lparr>buffer := Some (replicate (nat (n + n div 2)) (junk ctx)),
            buffer_len := n + n div 2\<rparr>)"
  using assms by (simp add: ResizeBufferTo_def DCHECK_def Allocate_def Let_def)

lemma ResizeBufferTo_copy:
  assumes "holds s c" and "buffer_len s < n"
  shows "ResizeBufferTo p ctx s n True =
     Inr (s\<lparr>buffer := Some (c @ replicate (nat (n + n div 2) - length c) (junk ctx)),
            buffer_len := n + n div 2\<rparr>)"
proof -
  from assms(1) obtain m where m: "buffer s = Some m" "buffer_len s = int (length m)"
      "str_len s = int (length c)" "length c \<le> length m" "take (length c) m = c"
    by (auto simp add: holds_def)
  have n: "int (length m) < n" "0 < n"
    using assms(2) m(2) by simp_all
  then have "length c \<le> nat (n + n div 2)"
    using m(4) by linarith
  then show ?thesis
    using m n
    by (simp add: ResizeBufferTo_def DCHECK_def Allocate_def Let_def read_bytes_def pointee_def
                  memcpy_def)
qed

lemma Set_Scratch_holds:
  assumes "holds s c \<or> (s = new_StringValScratch \<and> v \<noteq> [])"
  shows "\<exists>s'. Set_Scratch p ctx s (string_val v) = Inr s' \<and> holds s' v"
proof (cases "int (length v) \<le> buffer_len s")
  case True
  with assms have "holds s c"
    by (auto simp add: new_StringValScratch_def)
  then obtain m where m: "buffer s = Some m" "buffer_len s = int (length m)"
      "str_len s = int (length c)" "length c \<le> length m" "take (length c) m = c"
    by (auto simp add: holds_def)
  let ?s = "s\<lparr>buffer := Some (v @ drop (length v) m), str_len := int (length v)\<rparr>"
  have "Set_Scratch p ctx s (string_val v) = Inr ?s"
    using True m(1,2) read_string_val [of v]
    by (simp add: Set_Scratch_def ResizeBufferTo_def memcpy_to_def memcpy_def)
       (simp add: string_val_def)
  moreover have "holds ?s v"
    using True m(2) by (intro holdsI [of _ "v @ drop (length v) m"]) simp_all
  ultimately show ?thesis by blast
next
  case False
  let ?n = "int (length v)"
  let ?b = "replicate (nat (?n + ?n div 2)) (junk ctx)"
  have bl: "0 \<le> buffer_len s"
    using assms by (auto simp add: holds_def new_StringValScratch_def)
  have le: "length v \<le> nat (?n + ?n div 2)"
    by linarith
  let ?s = "s\<lparr>buffer := Some (v @ drop (length v) ?b), buffer_len := ?n + ?n div 2,
              str_len := ?n\<rparr>"
  have "ResizeBufferTo p ctx s (len (string_val v)) False
      = Inr (s\<lparr>buffer := Some ?b, buffer_len := ?n + ?n div 2\<rparr>)"
    using False bl ResizeBufferTo_fresh [of s ?n p ctx] by (simp add: string_val_def)
  then have "Set_Scratch p ctx s (string_val v) = Inr ?s"
    using le read_string_val [of v]
    by (simp add: Set_Scratch_def memcpy_to_def memcpy_def) (simp add: string_val_def)
  moreover have "holds ?s v"
    using le by (intro holdsI [of _ "v @ drop (length v) ?b"]) simp_all
  ultimately show ?thesis by blast
qed

lemma Append_holds:
  assumes "holds s c"
  shows "\<exists>s'. Append p ctx s (string_val v) = Inr s' \<and> holds s' (c @ v)"
proof (cases "v = []")
  case True
  with assms show ?thesis
    by (simp add: Append_def string_val_def)
next
  case False
  from assms obtain m where m: "buffer s = Some m" "buffer_len s = int (length m)"
      "str_len s = int (length c)" "length c \<le> length m" "take (length c) m = c"
    by (auto simp add: holds_def)
  let ?n = "int (length c) + int (length v)"
  show ?thesis
  proof (cases "?n > buffer_len s")
    case grow: True
    let ?b = "c @ replicate (nat (?n + ?n div 2) - length c) (junk ctx)"
    have le: "length c + length v \<le> nat (?n + ?n div 2)"
      by linarith
    let ?s = "s\<lparr>buffer := Some ((c @ v) @ drop (length c + length v) ?b),
                buffer_len := ?n + ?n div 2, str_len := ?n\<rparr>"
    have "take (length c) ?b = c"
      by simp
    have "Append p ctx s (string_val v) = Inr ?s"
      using False grow m(3) le ResizeBufferTo_copy [OF assms grow, of p ctx]
        read_string_val [of v]
      by (simp add: Append_def Let_def memcpy_to_def memcpy_def string_val_def)
    moreover have "holds ?s (c @ v)"
      using le by (intro holdsI [of _ "(c @ v) @ drop (length c + length v) ?b"]) simp_all
    ultimately show ?thesis by blast
  next
    case stay: False
    then have le: "length c + length v \<le> length m"
      using m(2) by simp
    let ?s = "s\<lparr>buffer := Some (take (length c) m @ v @ drop (length c + length v) m),
                str_len := ?n\<rparr>"
    have "Append p ctx s (string_val v) = Inr ?s"
      using False stay m le read_string_val [of v]
      by (simp add: Append_def Let_def memcpy_to_def memcpy_def string_val_def)
    moreover have "holds ?s (c @ v)"
      using le m(2,5)
      by (intro holdsI [of _ "take (length c) m @ v @ drop (length c + length v) m"]) simp_all
    ultimately show ?thesis by blast
  qed
qed

lemma first_Set:
  assumes "v \<noteq> []"
  shows "\<exists>s'. Set_Scratch p ctx new_StringValScratch (string_val v) = Inr s' \<and> holds s' v"
  using Set_Scratch_holds [of new_StringValScratch "[]" v p ctx] assms by simp

lemma wf_InitScratch: "wf_scratch_val InitScratch" "scratch InitScratch = new_StringValScratch"
  by (simp_all add: wf_scratch_val_def InitScratch_def)

lemma string_val_not_null: "\<not> is_null (string_val v)"
  by (simp add: string_val_def)

lemma holds_buffer: "holds s c \<Longrightarrow> buffer s \<noteq> None"
  by (auto simp add: holds_def)

lemma wf_scratch_update: "wf_scratch_val d \<Longrightarrow> wf_scratch_val (d\<lparr>scratch := s\<rparr>)"
  by (simp add: wf_scratch_val_def)

lemma SerializeScratch_holds:
  assumes "wf_scratch_val d" and "holds (scratch d) c"
  shows "map_sum id string_of (SerializeScratch p d) = Inr (Some c)"
  using assms
  by (auto simp add: wf_scratch_val_def holds_def SerializeScratch_def DCHECK_def Let_def
                     string_of_def)

lemma SerializeScratch_fresh:
  assumes "wf_scratch_val d" and "scratch d = new_StringValScratch"
  shows "map_sum id string_of (SerializeScratch p d) = Inr None"
  using assms
  by (simp add: wf_scratch_val_def SerializeScratch_def DCHECK_def Let_def string_of_def
                new_StringValScratch_def StringVal_null_def)

lemma StringValue_string_val: "StringValue (ptr (string_val v)) (len (string_val v)) = v"
  by (simp add: StringValue_def string_val_def)

lemma StringValue_holds: "holds s c \<Longrightarrow> StringValue (pointee (buffer s)) (str_len s) = c"
  by (auto simp add: holds_def StringValue_def pointee_def)

lemmas scratch_eval =
  serialize_after_def Min_String_def Max_String_def StringConcat_def StringConcat_row_def
  InitScratch_def DCHECK_def Set_Scratch_def Append_def ResizeBufferTo_def string_val_def
  new_StringValScratch_def read_bytes_def memcpy_to_def memcpy_def Allocate_def
  SerializeScratch_def string_of_def StringValue_def StringValue_less_def pointee_def
  StringVal_null_def sizeof_StringValScratch_def DEFAULT_STRING_CONCAT_DELIM_def

subsection \<open>Min and Max\<close>

lemma Min_Scalar_fold_nonnull:
  assumes "\<not> is_null d" and "\<forall>y\<in>set xs. \<not> is_null y"
  shows "fold Min_Scalar xs d = \<lparr>is_null = False, val = fold min (map val xs) (val d)\<rparr>"
  using assms
proof (induction xs arbitrary: d)
  case Nil
  then show ?case by (cases d) simp
next
  case (Cons x xs)
  let ?d = "Min_Scalar x d"
  have "\<not> is_null ?d" "val ?d = min (val x) (val d)"
    using Cons.prems by (auto simp add: Min_Scalar_def min_def)
  with Cons.IH [of ?d] Cons.prems(2) show ?case by simp
qed

lemma Max_Scalar_fold_nonnull:
  assumes "\<not> is_null d" and "\<forall>y\<in>set xs. \<not> is_null y"
  shows "fold Max_Scalar xs d = \<lparr>is_null = False, val = fold max (map val xs) (val d)\<rparr>"
  using assms
proof (induction xs arbitrary: d)
  case Nil
  then show ?case by (cases d) simp
next
  case (Cons x xs)
  let ?d = "Max_Scalar x d"
  have "\<not> is_null ?d" "val ?d = max (val x) (val d)"
    using Cons.prems by (auto simp add: Max_Scalar_def max_def)
  with Cons.IH [of ?d] Cons.prems(2) show ?case by simp
qed

text \<open>
  The scalar \<^verbatim>\<open>Min\<close> and \<^verbatim>\<open>Max\<close>, started from a null state and run over non-null values,
  end with the least and the greatest value, non-null.
\<close>

lemma Min_Max_Scalar:
  assumes "is_null d" and "\<not> is_null x" and "\<forall>y\<in>set xs. \<not> is_null y"
  shows "fold Min_Scalar (x # xs) d = \<lparr>is_null = False, val = Min (val ` set (x # xs))\<rparr>
       \<and> fold Max_Scalar (x # xs) d = \<lparr>is_null = False, val = Max (val ` set (x # xs))\<rparr>"
proof -
  have "Min_Scalar x d = x" "Max_Scalar x d = x"
    using assms(1,2) by (simp_all add: Min_Scalar_def Max_Scalar_def)
  then have "fold Min_Scalar (x # xs) d = \<lparr>is_null = False, val = fold min (map val xs) (val x)\<rparr>"
      "fold Max_Scalar (x # xs) d = \<lparr>is_null = False, val = fold max (map val xs) (val x)\<rparr>"
    using assms(2,3) by (simp_all add: Min_Scalar_fold_nonnull Max_Scalar_fold_nonnull)
  moreover have "val ` set (x # xs) = set (val x # map val xs)"
    by simp
  ultimately show ?thesis
    by (simp only: Min.set_eq_fold Max.set_eq_fold)
qed

lemma Min_String_step:
  assumes "wf_scratch_val d" and "holds (scratch d) c"
  shows "\<exists>d'. Min_String p ctx (string_val v) d = Inr d' \<and> wf_scratch_val d'
           \<and> holds (scratch d') (min v c)"
proof (cases "v < c")
  case True
  from Set_Scratch_holds [of "scratch d" c v p ctx] assms(2)
  obtain s' where s': "Set_Scratch p ctx (scratch d) (string_val v) = Inr s'" "holds s' v"
    by blast
  have "Min_String p ctx (string_val v) d = Inr (d\<lparr>scratch := s'\<rparr>)"
    using True assms s'(1)
    by (simp add: Min_String_def DCHECK_def wf_scratch_val_def StringValue_string_val
                  StringValue_holds StringValue_less_def Let_def string_val_not_null)
  moreover have "min v c = v"
    using True by simp
  ultimately show ?thesis
    using s'(2) wf_scratch_update [OF assms(1), of s'] by simp
next
  case False
  have "Min_String p ctx (string_val v) d = Inr d"
    using False assms holds_buffer [OF assms(2)]
    by (auto simp add: Min_String_def DCHECK_def wf_scratch_val_def StringValue_string_val
                  StringValue_holds StringValue_less_def Let_def string_val_not_null)
  moreover have "min v c = c"
    using False by simp
  ultimately show ?thesis
    using assms by simp
qed

lemma Max_String_step:
  assumes "wf_scratch_val d" and "holds (scratch d) c"
  shows "\<exists>d'. Max_String p ctx (string_val v) d = Inr d' \<and> wf_scratch_val d'
           \<and> holds (scratch d') (max v c)"
proof (cases "c < v")
  case True
  from Set_Scratch_holds [of "scratch d" c v p ctx] assms(2)
  obtain s' where s': "Set_Scratch p ctx (scratch d) (string_val v) = Inr s'" "holds s' v"
    by blast
  have "Max_String p ctx (string_val v) d = Inr (d\<lparr>scratch := s'\<rparr>)"
    using True assms s'(1)
    by (simp add: Max_String_def DCHECK_def wf_scratch_val_def StringValue_string_val
                  StringValue_holds StringValue_less_def Let_def string_val_not_null)
  moreover have "max v c = v"
    using True by simp
  ultimately show ?thesis
    using s'(2) wf_scratch_update [OF assms(1), of s'] by simp
next
  case False
  have "Max_String p ctx (string_val v) d = Inr d"
    using False assms holds_buffer [OF assms(2)]
    by (auto simp add: Max_String_def DCHECK_def wf_scratch_val_def StringValue_string_val
                  StringValue_holds StringValue_less_def Let_def string_val_not_null)
  moreover have "max v c = c"
    using False by simp
  ultimately show ?thesis
    using assms by simp
qed

lemma Min_String_all:
  assumes "wf_scratch_val d" and "holds (scratch d) c"
  shows "\<exists>d'. update_all (Min_String p ctx) (map string_val vs) d = Inr d' \<and> wf_scratch_val d'
           \<and> holds (scratch d') (fold min vs c)"
  using assms
proof (induction vs arbitrary: d c)
  case Nil
  then show ?case by simp
next
  case (Cons v vs)
  from Min_String_step [OF Cons.prems, of p ctx v]
  obtain d1 where d1: "Min_String p ctx (string_val v) d = Inr d1" "wf_scratch_val d1"
      "holds (scratch d1) (min v c)"
    by blast
  from Cons.IH [OF d1(2,3)] d1(1) show ?case
    by simp
qed

lemma Max_String_all:
  assumes "wf_scratch_val d" and "holds (scratch d) c"
  shows "\<exists>d'. update_all (Max_String p ctx) (map string_val vs) d = Inr d' \<and> wf_scratch_val d'
           \<and> holds (scratch d') (fold max vs c)"
  using assms
proof (induction vs arbitrary: d c)
  case Nil
  then show ?case by simp
next
  case (Cons v vs)
  from Max_String_step [OF Cons.prems, of p ctx v]
  obtain d1 where d1: "Max_String p ctx (string_val v) d = Inr d1" "wf_scratch_val d1"
      "holds (scratch d1) (max v c)"
    by blast
  from Cons.IH [OF d1(2,3)] d1(1) show ?case
    by simp
qed

text \<open>
  The text \<^verbatim>\<open>Min\<close> and \<^verbatim>\<open>Max\<close> over values none of which is the empty string end,
  after \<^verbatim>\<open>SerializeScratch\<close>, with the least and the greatest value in byte-lexicographic
  order.
\<close>

lemma Min_Max_String_nonempty:
  assumes "v \<noteq> []" and "\<forall>x\<in>set vs. x \<noteq> []"
  shows "map_sum id string_of (serialize_after p
           (update_all (Min_String p ctx) (map string_val (v # vs)) InitScratch))
         = Inr (Some (Min (set (v # vs))))
       \<and> map_sum id string_of (serialize_after p
           (update_all (Max_String p ctx) (map string_val (v # vs)) InitScratch))
         = Inr (Some (Max (set (v # vs))))"
proof -
  from first_Set [OF assms(1), of p ctx]
  obtain s1 where s1: "Set_Scratch p ctx new_StringValScratch (string_val v) = Inr s1" "holds s1 v"
    by blast
  let ?d1 = "InitScratch\<lparr>scratch := s1\<rparr>"
  have d1: "wf_scratch_val ?d1" "holds (scratch ?d1) v"
    using s1(2) wf_InitScratch by (simp_all add: wf_scratch_val_def)
  have nn: "\<not> is_null (string_val v)"
    by (rule string_val_not_null)
  have mn: "Min_String p ctx (string_val v) InitScratch = Inr ?d1"
    using s1(1) wf_InitScratch nn
    by (simp add: Min_String_def DCHECK_def wf_scratch_val_def Let_def new_StringValScratch_def)
  have mx: "Max_String p ctx (string_val v) InitScratch = Inr ?d1"
    using s1(1) wf_InitScratch nn
    by (simp add: Max_String_def DCHECK_def wf_scratch_val_def Let_def new_StringValScratch_def)
  from Min_String_all [OF d1, of p ctx vs]
  obtain d' where "update_all (Min_String p ctx) (map string_val vs) ?d1 = Inr d'"
      "wf_scratch_val d'" "holds (scratch d') (fold min vs v)"
    by blast
  with mn have 1: "map_sum id string_of (serialize_after p
           (update_all (Min_String p ctx) (map string_val (v # vs)) InitScratch))
         = Inr (Some (fold min vs v))"
    by (simp add: serialize_after_def SerializeScratch_holds)
  from Max_String_all [OF d1, of p ctx vs]
  obtain d'' where "update_all (Max_String p ctx) (map string_val vs) ?d1 = Inr d''"
      "wf_scratch_val d''" "holds (scratch d'') (fold max vs v)"
    by blast
  with mx have 2: "map_sum id string_of (serialize_after p
           (update_all (Max_String p ctx) (map string_val (v # vs)) InitScratch))
         = Inr (Some (fold max vs v))"
    by (simp add: serialize_after_def SerializeScratch_holds)
  from 1 2 show ?thesis
    by (simp only: Min.set_eq_fold Max.set_eq_fold)
qed

text \<open>
  C7. The claim is that text Min and Max return the true minimum and maximum, non-null.
  \<^verbatim>\<open>Set\<close> of an empty string leaves \<open>buffer\<close> at \<^verbatim>\<open>NULL\<close>, which \<^verbatim>\<open>Min\<close>, \<^verbatim>\<open>Max\<close> and
  \<^verbatim>\<open>SerializeScratch\<close> read as "no value yet": Min over the empty string followed by
  \<open>a\<close> returns \<open>a\<close> although the empty string is smaller, the other order returns the
  empty string, and Max over the empty string alone returns null.
\<close>

theorem Min_String_empty_string_first:
  "StringValue_less [] [97]
   \<and> map_sum id string_of (serialize_after p
         (update_all (Min_String p ctx) [string_val [], string_val [97]] InitScratch))
       = Inr (Some [97])
   \<and> map_sum id string_of (serialize_after p
         (update_all (Min_String p ctx) [string_val [97], string_val []] InitScratch))
       = Inr (Some [])
   \<and> map_sum id string_of (serialize_after p
         (update_all (Max_String p ctx) [string_val []] InitScratch))
       = Inr None"
  by (simp add: scratch_eval)

subsection \<open>Concatenation\<close>

lemma DEFAULT_is_string_val: "DEFAULT_STRING_CONCAT_DELIM = string_val [44, 32]"
  by (simp add: DEFAULT_STRING_CONCAT_DELIM_def string_val_def)

lemma StringConcat_null:
  "StringConcat_row p ctx (concat_row (None, s)) d = Inr d"
  by (simp add: StringConcat_row_def concat_row_def opt_val_def StringVal_null_def
                StringConcat_def)

lemma StringConcat_step:
  assumes "wf_scratch_val d" and "holds (scratch d) a"
  shows "\<exists>d'. StringConcat_row p ctx (concat_row (Some v, s)) d = Inr d' \<and> wf_scratch_val d'
           \<and> holds (scratch d') (a @ separator_bytes s @ v)"
proof -
  from Append_holds [OF assms(2), of p ctx "separator_bytes s"]
  obtain s1 where s1: "Append p ctx (scratch d) (string_val (separator_bytes s)) = Inr s1"
      "holds s1 (a @ separator_bytes s)"
    by blast
  from Append_holds [OF s1(2), of p ctx v]
  obtain s2 where s2: "Append p ctx s1 (string_val v) = Inr s2"
      "holds s2 ((a @ separator_bytes s) @ v)"
    by blast
  have sep: "(if is_null (opt_val s) then Append p ctx (scratch d) DEFAULT_STRING_CONCAT_DELIM
              else Append p ctx (scratch d) (opt_val s)) = Inr s1"
    using s1(1)
    by (cases s)
       (simp_all add: opt_val_def separator_bytes_def StringVal_null_def DEFAULT_is_string_val
                      string_val_not_null)
  have "StringConcat_row p ctx (concat_row (Some v, s)) d = Inr (d\<lparr>scratch := s2\<rparr>)"
    using assms(1) holds_buffer [OF assms(2)] sep s2(1)
    by (auto simp add: StringConcat_row_def concat_row_def StringConcat_def DCHECK_def
                       wf_scratch_val_def Let_def opt_val_def string_val_not_null)
  then show ?thesis
    using s2(2) wf_scratch_update [OF assms(1), of s2] by simp
qed

lemma StringConcat_all:
  assumes "wf_scratch_val d" and "holds (scratch d) a"
  shows "\<exists>d'. update_all (StringConcat_row p ctx) (map concat_row rows) d = Inr d'
           \<and> wf_scratch_val d' \<and> holds (scratch d') (concat_from a rows)"
  using assms
proof (induction a rows arbitrary: d rule: concat_from.induct)
  case (1 a)
  then show ?case by simp
next
  case (2 a s rs)
  from "2.IH" [OF "2.prems"] show ?case
    by (simp add: StringConcat_null)
next
  case (3 a v s rs)
  from StringConcat_step [OF "3.prems", of p ctx v s]
  obtain d1 where d1: "StringConcat_row p ctx (concat_row (Some v, s)) d = Inr d1"
      "wf_scratch_val d1" "holds (scratch d1) (a @ separator_bytes s @ v)"
    by blast
  from "3.IH" [OF d1(2,3)] d1(1) show ?case
    by simp
qed

text \<open>
  Unless the first non-null value is the empty string, the concatenation ends with
  \<open>concat_spec\<close> of the rows: the first value, then for every later non-null value its
  separator (\<open>", "\<close> when that is null) and the value; null when no value is non-null.
\<close>

lemma StringConcat_nonempty_first:
  assumes "first_value rows \<noteq> Some []"
  shows "map_sum id string_of (serialize_after p
           (update_all (StringConcat_row p ctx) (map concat_row rows) InitScratch))
         = Inr (concat_spec rows)"
  using assms
proof (induction rows rule: concat_spec.induct)
  case 1
  show ?case
    using SerializeScratch_fresh [OF wf_InitScratch, of p]
    by (simp add: serialize_after_def id_def)
next
  case (2 s rs)
  then show ?case
    by (simp add: StringConcat_null)
next
  case (3 v s rs)
  then have v: "v \<noteq> []" by simp
  from first_Set [OF v, of p ctx]
  obtain s1 where s1: "Set_Scratch p ctx new_StringValScratch (string_val v) = Inr s1" "holds s1 v"
    by blast
  let ?d1 = "InitScratch\<lparr>scratch := s1\<rparr>"
  have d1: "wf_scratch_val ?d1" "holds (scratch ?d1) v"
    using s1(2) wf_InitScratch by (simp_all add: wf_scratch_val_def)
  have first: "StringConcat_row p ctx (concat_row (Some v, s)) InitScratch = Inr ?d1"
    using s1(1) wf_InitScratch
    by (simp add: StringConcat_row_def concat_row_def StringConcat_def DCHECK_def
                  wf_scratch_val_def Let_def opt_val_def string_val_not_null
                  new_StringValScratch_def)
  from StringConcat_all [OF d1, of p ctx rs]
  obtain d' where "update_all (StringConcat_row p ctx) (map concat_row rs) ?d1 = Inr d'"
      "wf_scratch_val d'" "holds (scratch d') (concat_from v rs)"
    by blast
  moreover from this(2,3) have "map_sum id string_of (SerializeScratch p d') = Inr (Some (concat_from v rs))"
    by (rule SerializeScratch_holds)
  ultimately show ?case
    using first by (simp add: serialize_after_def id_def)
qed

text \<open>
  C8. The claim is that the accumulated bytes are \<open>v1 + S + v2 + ...\<close>. When the first
  value is the empty string the buffer is still \<^verbatim>\<open>NULL\<close> at the second call, which then
  sets its value without the separator: the empty string and \<open>a\<close> with separator \<open>,\<close>
  give \<open>a\<close>, not \<open>,a\<close>. With a non-empty first value the separator is there.
\<close>

theorem StringConcat_empty_string_first:
  "map_sum id string_of (serialize_after p
      (update_all (StringConcat_row p ctx)
         [(string_val [], string_val [44]), (string_val [97], string_val [44])] InitScratch))
     = Inr (Some [97])
   \<and> [] @ [44] @ [97] \<noteq> [97 :: byte]
   \<and> map_sum id string_of (serialize_after p
      (update_all (StringConcat_row p ctx)
         [(string_val [98], string_val [44]), (string_val [97], string_val [44])] InitScratch))
     = Inr (Some ([98] @ [44] @ [97]))"
  by (simp add: scratch_eval)

end
